theory Spec2Isabelle
  imports Main "HOL-Library.Word" "HOL-Library.Multiset"
begin

unbundle bit_operations_syntax

section \<open>Data model of \<open>src/16/main.cpp\<close>\<close>

text \<open>
  \<^verbatim>\<open>enum struct tile_e : u8 { invalid, empty, wall, start, end };\<close>
  The constructors carry a prefix because \<open>end\<close> is a keyword of the theory language.
\<close>

datatype tile_e = tile_invalid | tile_empty | tile_wall | tile_start | tile_end

text \<open>
  \<^verbatim>\<open>enum struct dir_e : u8 { n, s, e, w, none, path = 0xF0 };\<close>
  The source ORs and XORs \<open>path\<close> into a direction, so a \<open>dir_e\<close> value is a byte.
\<close>

type_synonym dir_e = "8 word"

definition dir_n :: dir_e where "dir_n = 0"
definition dir_s :: dir_e where "dir_s = 1"
definition dir_e :: dir_e where "dir_e = 2"
definition dir_w :: dir_e where "dir_w = 3"
definition dir_none :: dir_e where "dir_none = 4"
definition dir_path :: dir_e where "dir_path = 0xF0"

text \<open>\<^verbatim>\<open>struct ivec2 { int x, y; }\<close> with its \<open>operator+\<close>. The fields are called
  \<open>xc\<close> and \<open>yc\<close> here.\<close>

record ivec2 =
  xc :: int
  yc :: int

definition ivec2_add :: "ivec2 \<Rightarrow> ivec2 \<Rightarrow> ivec2" where
  "ivec2_add a b = \<lparr>xc = xc a + xc b, yc = yc a + yc b\<rparr>"

text \<open>\<^verbatim>\<open>state_t::moves\<close>: north, south, east, west, indexed by the numeric value of the
  direction.\<close>

definition moves :: "ivec2 list" where
  "moves = [\<lparr>xc = 0, yc = -1\<rparr>, \<lparr>xc = 0, yc = 1\<rparr>, \<lparr>xc = 1, yc = 0\<rparr>, \<lparr>xc = -1, yc = 0\<rparr>]"

text \<open>
  The source's \<open>int\<close> is a 32-bit two's complement integer. A cost is kept as an integer in
  the range of that type, and the sums the search forms (\<open>g_cost + move_cost\<close>,
  \<open>g_cost + h_cost\<close>, \<open>search_count++\<close>) wrap around as the machine's addition does.
\<close>

definition wrap32 :: "int \<Rightarrow> int" where
  "wrap32 i = (i + 2147483648) mod 4294967296 - 2147483648"

definition add32 :: "int \<Rightarrow> int \<Rightarrow> int" where
  "add32 a b = wrap32 (a + b)"

text \<open>
  \<^verbatim>\<open>struct state_t { dir_e dir; int g_cost; int h_cost; int p_idx; }\<close>.
  \<open>p_idx\<close> only ever holds an index into the tile array and is a natural number.
\<close>

record state_t =
  dir :: dir_e
  g_cost :: int
  h_cost :: int
  p_idx :: nat

definition f_cost :: "state_t \<Rightarrow> int" where
  "f_cost s = add32 (g_cost s) (h_cost s)"

text \<open>\<^verbatim>\<open>state_t::operator>\<close>\<close>

definition state_gt :: "state_t \<Rightarrow> state_t \<Rightarrow> bool" where
  "state_gt a b =
     (if f_cost a = f_cost b then h_cost a > h_cost b else f_cost a > f_cost b)"

definition reset :: "state_t \<Rightarrow> state_t" where
  "reset s = s\<lparr>dir := dir_none, g_cost := 0, h_cost := 0, p_idx := 0\<rparr>"

record tile_t =
  type :: tile_e
  pos :: ivec2
  state :: state_t

text \<open>\<^verbatim>\<open>struct maze_t\<close>: \<open>size\<close> and \<open>map\<close> carry a suffix, the array \<open>map\<close> is a list.\<close>

record maze_t =
  size_v :: ivec2
  map_v :: "tile_t list"
  solve_time :: int
  search_count :: int
  path_cost :: int

text \<open>\<^verbatim>\<open>maze_t::idx\<close>: \<open>(size_t)y * size.x + x\<close>, called on in-bounds coordinates only.\<close>

definition idx :: "ivec2 \<Rightarrow> int \<Rightarrow> int \<Rightarrow> nat" where
  "idx sz x y = nat (y * xc sz + x)"

subsection \<open>Characters and tiles\<close>

definition char_to_tile :: "char \<Rightarrow> tile_e" where
  "char_to_tile c =
     (if c = CHR ''.'' then tile_empty
      else if c = CHR ''#'' then tile_wall
      else if c = CHR ''S'' then tile_start
      else if c = CHR ''E'' then tile_end
      else tile_invalid)"

definition tile_to_char :: "tile_t \<Rightarrow> char" where
  "tile_to_char t =
     (let masked_dir = dir (state t) XOR dir_path;
          is_path = (dir (state t) AND dir_path) > 0
      in if is_path \<and> type t \<noteq> tile_start \<and> type t \<noteq> tile_end then
           (if masked_dir = dir_n then CHR ''^''
            else if masked_dir = dir_s then CHR ''v''
            else if masked_dir = dir_e then CHR ''>''
            else if masked_dir = dir_w then CHR ''<''
            else CHR ''?'')
         else
           (case type t of
              tile_empty \<Rightarrow> CHR ''.''
            | tile_wall \<Rightarrow> CHR ''#''
            | tile_start \<Rightarrow> CHR ''S''
            | tile_end \<Rightarrow> CHR ''E''
            | tile_invalid \<Rightarrow> CHR ''?''))"

subsection \<open>The heuristic\<close>

definition heuristic :: "tile_t \<Rightarrow> tile_t \<Rightarrow> int" where
  "heuristic a b =
     (let manhattan_dist = \<bar>xc (pos a) - xc (pos b)\<bar> + \<bar>yc (pos a) - yc (pos b)\<bar>;
          is_straight_path = (xc (pos a) = xc (pos b) \<or> yc (pos a) = yc (pos b));
          desired_dir =
            (if xc (pos a) < xc (pos b) then dir_e
             else if xc (pos a) > xc (pos b) then dir_w
             else if yc (pos a) < yc (pos b) then dir_s
             else dir_n);
          rotation_cost = (if dir (state a) \<noteq> desired_dir then 1000 else 0);
          rotation_cost = (if \<not> is_straight_path then rotation_cost + 1000 else rotation_cost)
      in manhattan_dist + rotation_cost)"

section \<open>The search: \<open>maze_t::solve\<close>\<close>

subsection \<open>The frontier\<close>

text \<open>
  The frontier is a \<^verbatim>\<open>std::priority_queue<int, std::vector<int>, decltype(priority_fn)>\<close>
  of tile indices with \<^verbatim>\<open>priority_fn a b = map[a].state > map[b].state\<close>, read from the
  tile array at the time of each comparison. The queue is its vector: \<open>push\<close> is
  \<^verbatim>\<open>push_back\<close> followed by \<^verbatim>\<open>std::push_heap\<close>, \<open>pop\<close> is \<^verbatim>\<open>std::pop_heap\<close> followed by
  \<^verbatim>\<open>pop_back\<close>, and \<open>top\<close> is \<^verbatim>\<open>front\<close>. The two heap algorithms are those of the GNU C++
  library (\<^verbatim>\<open>__push_heap\<close>, \<^verbatim>\<open>__adjust_heap\<close>, \<^verbatim>\<open>__pop_heap\<close> in \<^verbatim>\<open>bits/stl_heap.h\<close>), which is not
  part of the repository. A relaxation writes the state of a tile that may be queued, so the
  vector need not be a heap for the current states; the algorithms are followed as they are.
\<close>

definition priority_fn :: "tile_t list \<Rightarrow> nat \<Rightarrow> nat \<Rightarrow> bool" where
  "priority_fn m a b = state_gt (state (m ! a)) (state (m ! b))"

text \<open>\<^verbatim>\<open>__push_heap(first, holeIndex, topIndex, value, comp)\<close>: the hole moves up while its
  parent compares before the value.\<close>

function push_heap_loop :: "tile_t list \<Rightarrow> nat list \<Rightarrow> nat \<Rightarrow> nat \<Rightarrow> nat \<Rightarrow> nat list" where
  "push_heap_loop m c holeIndex topIndex v =
     (let parent = (holeIndex - 1) div 2
      in if holeIndex > topIndex \<and> priority_fn m (c ! parent) v
         then push_heap_loop m (c[holeIndex := c ! parent]) parent topIndex v
         else c[holeIndex := v])"
  by pat_completeness auto
termination
  by (relation "measure (\<lambda>(m, c, holeIndex, topIndex, v). holeIndex)") auto

declare push_heap_loop.simps [simp del]

text \<open>\<^verbatim>\<open>std::push_heap(first, last, comp)\<close>: the value is the last element.\<close>

definition push_heap :: "tile_t list \<Rightarrow> nat list \<Rightarrow> nat list" where
  "push_heap m c = push_heap_loop m c (length c - 1) 0 (c ! (length c - 1))"

text \<open>The first loop of \<^verbatim>\<open>__adjust_heap\<close>: the hole moves down to the child that does not
  compare before its sibling. It returns the vector, \<open>holeIndex\<close> and \<open>secondChild\<close>.\<close>

function adjust_heap_loop ::
  "tile_t list \<Rightarrow> nat list \<Rightarrow> nat \<Rightarrow> nat \<Rightarrow> nat \<Rightarrow> nat list \<times> nat \<times> nat" where
  "adjust_heap_loop m c holeIndex secondChild len =
     (if secondChild < (len - 1) div 2
      then
        let sc = 2 * (secondChild + 1);
            sc = (if priority_fn m (c ! sc) (c ! (sc - 1)) then sc - 1 else sc)
        in adjust_heap_loop m (c[holeIndex := c ! sc]) sc sc len
      else (c, holeIndex, secondChild))"
  by pat_completeness auto
termination
  by (relation "measure (\<lambda>(m, c, holeIndex, secondChild, len). len - secondChild)") auto

declare adjust_heap_loop.simps [simp del]

text \<open>\<^verbatim>\<open>__adjust_heap(first, holeIndex, len, value, comp)\<close>, called with \<open>len > 0\<close>.\<close>

definition adjust_heap :: "tile_t list \<Rightarrow> nat list \<Rightarrow> nat \<Rightarrow> nat \<Rightarrow> nat \<Rightarrow> nat list" where
  "adjust_heap m c holeIndex len v =
     (case adjust_heap_loop m c holeIndex holeIndex len of
        (c1, hole1, secondChild) \<Rightarrow>
          if len mod 2 = 0 \<and> secondChild = (len - 2) div 2
          then push_heap_loop m (c1[hole1 := c1 ! (2 * (secondChild + 1) - 1)])
                 (2 * (secondChild + 1) - 1) holeIndex v
          else push_heap_loop m c1 hole1 holeIndex v)"

text \<open>\<^verbatim>\<open>std::pop_heap(first, last, comp)\<close>: with more than one element, the last one is taken
  out as the value, the first one is put in its place, and the heap of the remaining
  \<open>last - first - 1\<close> elements is adjusted from the root.\<close>

definition pop_heap :: "tile_t list \<Rightarrow> nat list \<Rightarrow> nat list" where
  "pop_heap m c =
     (if length c > 1
      then adjust_heap m (c[length c - 1 := c ! 0]) 0 (length c - 1) (c ! (length c - 1))
      else c)"

definition pq_push :: "tile_t list \<Rightarrow> nat \<Rightarrow> nat list \<Rightarrow> nat list" where
  "pq_push m i q = push_heap m (q @ [i])"

definition pq_top :: "nat list \<Rightarrow> nat" where
  "pq_top q = q ! 0"

definition pq_pop :: "tile_t list \<Rightarrow> nat list \<Rightarrow> nat list" where
  "pq_pop m q = butlast (pop_heap m q)"

subsection \<open>Relaxing one neighbour\<close>

text \<open>\<^verbatim>\<open>int move_cost = current.state.dir != static_cast<dir_e>(move_dir) ? 1001 : 1;\<close>\<close>

definition move_cost :: "dir_e \<Rightarrow> nat \<Rightarrow> int" where
  "move_cost d move_dir = (if d \<noteq> of_nat move_dir then 1001 else 1)"

text \<open>The four assignments to \<open>neighbor.state\<close>. The heuristic reads the neighbour after
  its direction has been written, and \<open>map[end_idx]\<close> from the same array.\<close>

definition relax :: "nat \<Rightarrow> nat \<Rightarrow> nat \<Rightarrow> nat \<Rightarrow> int \<Rightarrow> tile_t list \<Rightarrow> tile_t list" where
  "relax end_idx current_idx neighbor_idx move_dir g m =
     (let nb = m ! neighbor_idx;
          m1 = m[neighbor_idx := nb\<lparr>state := (state nb)\<lparr>dir := of_nat move_dir, g_cost := g\<rparr>\<rparr>];
          nb1 = m1 ! neighbor_idx;
          h = heuristic nb1 (m1 ! end_idx)
      in m1[neighbor_idx := nb1\<lparr>state := (state nb1)\<lparr>h_cost := h, p_idx := current_idx\<rparr>\<rparr>])"

text \<open>The body of \<^verbatim>\<open>for (int move_dir = 0; move_dir < 4; ++move_dir)\<close>, on the maze and
  the frontier. The push compares against the states as the relaxation has left them.\<close>

definition visit :: "nat \<Rightarrow> nat \<Rightarrow> nat \<Rightarrow> maze_t \<times> nat list \<Rightarrow> maze_t \<times> nat list" where
  "visit end_idx current_idx move_dir st =
     (case st of (mz, pq) \<Rightarrow>
        let current = map_v mz ! current_idx;
            n = ivec2_add (pos current) (moves ! move_dir)
        in if xc n < 0 \<or> xc n \<ge> xc (size_v mz) \<or> yc n < 0 \<or> yc n \<ge> yc (size_v mz)
           then (mz, pq)
           else
             let neighbor_idx = idx (size_v mz) (xc n) (yc n);
                 neighbor = map_v mz ! neighbor_idx
             in if type neighbor = tile_wall then (mz, pq)
                else
                  let g = add32 (g_cost (state current)) (move_cost (dir (state current)) move_dir)
                  in if g_cost (state neighbor) = 0 \<or> g < g_cost (state neighbor)
                     then (mz\<lparr>map_v := relax end_idx current_idx neighbor_idx move_dir g (map_v mz),
                               search_count := add32 (search_count mz) 1\<rparr>,
                           pq_push (relax end_idx current_idx neighbor_idx move_dir g (map_v mz))
                             neighbor_idx pq)
                     else (mz, pq))"

definition explore :: "nat \<Rightarrow> nat \<Rightarrow> maze_t \<times> nat list \<Rightarrow> maze_t \<times> nat list" where
  "explore end_idx current_idx st = fold (visit end_idx current_idx) [0, 1, 2, 3] st"

subsection \<open>The main loop and the path walk\<close>

text \<open>\<^verbatim>\<open>while (!pq.empty())\<close>. The result is the maze when the loop is left; \<open>None\<close> stands
  for a loop that never ends.\<close>

partial_function (option) search_loop :: "nat \<Rightarrow> maze_t \<Rightarrow> nat list \<Rightarrow> maze_t option" where
  "search_loop end_idx mz pq =
     (if pq = [] then Some mz
      else
        let current_idx = pq_top pq;
            pq1 = pq_pop (map_v mz) pq
        in if current_idx = end_idx
           then Some (mz\<lparr>path_cost := g_cost (state (map_v mz ! current_idx))\<rparr>)
           else (case explore end_idx current_idx (mz, pq1) of
                   (mz2, pq2) \<Rightarrow> search_loop end_idx mz2 pq2))"

declare search_loop.simps [code]

text \<open>\<^verbatim>\<open>while (true) { map[curr_idx].state.dir |= path; curr_idx = p_idx; if (curr_idx == start_idx) break; }\<close>\<close>

partial_function (option) mark_path :: "nat \<Rightarrow> tile_t list \<Rightarrow> nat \<Rightarrow> tile_t list option" where
  "mark_path start_idx m curr_idx =
     (let t = m ! curr_idx;
          m1 = m[curr_idx := t\<lparr>state := (state t)\<lparr>dir := dir (state t) OR dir_path\<rparr>\<rparr>];
          next_idx = p_idx (state (m1 ! curr_idx))
      in if next_idx = start_idx then Some m1 else mark_path start_idx m1 next_idx)"

declare mark_path.simps [code]

subsection \<open>\<open>solve\<close>\<close>

text \<open>The exceptions of the program: \<^verbatim>\<open>std::runtime_error\<close> and
  \<^verbatim>\<open>std::invalid_argument\<close>, each with its message.\<close>

datatype error = runtime_error string | invalid_argument string

fun what :: "error \<Rightarrow> string" where
  "what (runtime_error s) = s"
| "what (invalid_argument s) = s"

text \<open>The scan \<^verbatim>\<open>for (int i = 0; i < size.x * size.y; ++i)\<close> resets every state and records
  in \<open>start_idx\<close> and \<open>end_idx\<close> the index of each start and end tile it meets, so that the
  last one met stays; both begin at \<open>-1\<close>. The array has \<open>size.x * size.y\<close> entries. Resetting
  writes states only and locating reads kinds only: the model resets with \<open>map reset_tile\<close>
  and locates with \<open>locate\<close>, whose second argument is the index of the head of the list.\<close>

definition reset_tile :: "tile_t \<Rightarrow> tile_t" where
  "reset_tile t = t\<lparr>state := reset (state t)\<rparr>"

fun locate :: "tile_t list \<Rightarrow> nat \<Rightarrow> int \<times> int \<Rightarrow> int \<times> int" where
  "locate [] i se = se"
| "locate (t # ts) i se =
     locate ts (Suc i)
       (if type t = tile_start then int i else fst se,
        if type t = tile_end then int i else snd se)"

definition endl :: string where
  "endl = [CHR 0x0A]"

definition no_path_msg :: string where
  "no_path_msg = ''No path found to the goal.'' @ endl"

text \<open>\<open>solve\<close> returns the maze and what it wrote to \<open>std::cerr\<close>, or the exception it
  threw. \<open>elapsed\<close> is the reading of the stopwatch after the search.\<close>

definition solve :: "int \<Rightarrow> maze_t \<Rightarrow> (error + maze_t \<times> string) option" where
  "solve elapsed mz0 =
     (let mz = mz0\<lparr>solve_time := 0, search_count := 1, path_cost := -1\<rparr>;
          mz = mz\<lparr>map_v := map reset_tile (map_v mz)\<rparr>;
          se = locate (map_v mz) 0 (-1, -1);
          start_idx = fst se;
          end_idx = snd se
      in if start_idx = -1 \<or> end_idx = -1
         then Some (Inl (runtime_error ''Maze must have a start (S) and an end (E).''))
         else
           let s = nat start_idx;
               e = nat end_idx;
               start_tile = map_v mz ! s;
               mz = mz\<lparr>map_v := (map_v mz)[s := start_tile\<lparr>state := (state start_tile)\<lparr>dir := dir_e\<rparr>\<rparr>]\<rparr>
           in (case search_loop e mz (pq_push (map_v mz) s []) of
                 None \<Rightarrow> None
               | Some mz \<Rightarrow>
                   let mz = mz\<lparr>solve_time := elapsed\<rparr>
                   in if path_cost mz = -1 then Some (Inr (mz, no_path_msg))
                      else (case mark_path s (map_v mz) e of
                              None \<Rightarrow> None
                            | Some m \<Rightarrow> Some (Inr (mz\<lparr>map_v := m\<rparr>, [])))))"

section \<open>Files: \<open>util::read_file\<close>, \<open>maze_t::load\<close>, \<open>maze_t::print\<close>, \<open>main\<close>\<close>

text \<open>The lines that successive \<^verbatim>\<open>std::getline\<close> calls return on a file's bytes: a line
  ends at a newline; the bytes after the last newline are a line when there are any.\<close>

fun getlines :: "string \<Rightarrow> string \<Rightarrow> string list" where
  "getlines line [] = (if line = [] then [] else [line])"
| "getlines line (c # cs) =
     (if c = CHR 0x0A then line # getlines [] cs else getlines (line @ [c]) cs)"

text \<open>A file that cannot be opened is \<open>None\<close>.\<close>

definition read_file :: "string option \<Rightarrow> error + string list" where
  "read_file file =
     (case file of
        None \<Rightarrow> Inl (runtime_error ''Failed to open file.'')
      | Some bytes \<Rightarrow>
          let lines = filter (\<lambda>line. line \<noteq> []) (getlines [] bytes)
          in if lines = [] then Inl (runtime_error ''File is empty.'') else Inr lines)"

definition new_tile :: "char \<Rightarrow> nat \<Rightarrow> nat \<Rightarrow> tile_t" where
  "new_tile c x y =
     \<lparr>type = char_to_tile c, pos = \<lparr>xc = int x, yc = int y\<rparr>,
      state = \<lparr>dir = dir_none, g_cost = 0, h_cost = 0, p_idx = 0\<rparr>\<rparr>"

definition load :: "string option \<Rightarrow> error + maze_t" where
  "load file =
     (case read_file file of
        Inl e \<Rightarrow> Inl e
      | Inr lines \<Rightarrow>
          let size_y = length lines;
              size_x = length (lines ! 0)
          in if \<exists>l \<in> set lines. length l \<noteq> size_x
             then Inl (runtime_error ''Inconsistent row lengths in maze file.'')
             else
               let m = concat (map (\<lambda>y. map (\<lambda>x. new_tile (lines ! y ! x) x y) [0..<size_x])
                                   [0..<size_y])
               in if \<exists>t \<in> set m. type t = tile_invalid
                  then Inl (invalid_argument ''Invalid character in maze file.'')
                  else Inr \<lparr>size_v = \<lparr>xc = int size_x, yc = int size_y\<rparr>, map_v = m,
                            solve_time = 0, search_count = 0, path_cost = 0\<rparr>)"

text \<open>Decimal output of an \<open>int\<close> by \<^verbatim>\<open>operator<<\<close>.\<close>

definition digit :: "nat \<Rightarrow> char" where
  "digit n = ''0123456789'' ! n"

function show_nat :: "nat \<Rightarrow> string" where
  "show_nat n = (if n < 10 then [digit n] else show_nat (n div 10) @ [digit (n mod 10)])"
  by pat_completeness auto
termination
  by (relation "measure id") auto

declare show_nat.simps [simp del]

definition show_int :: "int \<Rightarrow> string" where
  "show_int i = (if i < 0 then CHR ''-'' # show_nat (nat (- i)) else show_nat (nat i))"

text \<open>The three summary lines of \<open>print\<close>; the number after \<open>Solved in:\<close> is \<open>solve_time\<close>.\<close>

definition summary_before_time :: "maze_t \<Rightarrow> string" where
  "summary_before_time mz =
     ''Dimensions: '' @ show_int (xc (size_v mz)) @ '' x '' @ show_int (yc (size_v mz)) @ endl
     @ ''Solved in: ''"

definition summary_after_time :: "maze_t \<Rightarrow> string" where
  "summary_after_time mz =
     '' ms. Search count: '' @ show_int (search_count mz) @ endl
     @ ''Best path cost '' @ show_int (path_cost mz) @ '' points'' @ endl"

definition summary :: "maze_t \<Rightarrow> string" where
  "summary mz = summary_before_time mz @ show_int (solve_time mz) @ summary_after_time mz"

text \<open>The rows of the grid as \<open>print\<close> renders them.\<close>

definition render_rows :: "maze_t \<Rightarrow> string list" where
  "render_rows mz =
     map (\<lambda>y. map (\<lambda>x. tile_to_char (map_v mz ! idx (size_v mz) (int x) (int y)))
                   [0..<nat (xc (size_v mz))])
         [0..<nat (yc (size_v mz))]"

definition render :: "maze_t \<Rightarrow> string" where
  "render mz = concat (map (\<lambda>row. row @ endl) (render_rows mz))"

text \<open>What \<^verbatim>\<open>util::write_file\<close> meets: the file opens and takes the text, or it does not
  open, or the write fails.\<close>

datatype write_status = write_ok | open_fails | write_fails

definition write_file :: "write_status \<Rightarrow> string \<Rightarrow> error + string" where
  "write_file ws text =
     (case ws of
        write_ok \<Rightarrow> Inr text
      | open_fails \<Rightarrow> Inl (runtime_error ''Failed to open file for writing.'')
      | write_fails \<Rightarrow> Inl (runtime_error ''Failed to write to file.''))"

text \<open>\<open>print\<close> returns what it sent to \<open>std::cout\<close> and the result of writing the file.\<close>

definition print :: "write_status \<Rightarrow> maze_t \<Rightarrow> string \<times> (error + string)" where
  "print ws mz = (summary mz, write_file ws (summary mz @ render mz))"

text \<open>One run of \<open>main\<close>: the exit code, the two console streams and the output file
  (\<open>None\<close> when it was not written completely).\<close>

record outcome =
  exit_code :: int
  cout :: string
  cerr :: string
  output_file :: "string option"

definition error_line :: "error \<Rightarrow> string" where
  "error_line e = ''Error: '' @ what e @ endl"

definition main :: "string option \<Rightarrow> int \<Rightarrow> write_status \<Rightarrow> outcome option" where
  "main input elapsed ws =
     (case load input of
        Inl e \<Rightarrow> Some \<lparr>exit_code = 1, cout = [], cerr = error_line e, output_file = None\<rparr>
      | Inr mz0 \<Rightarrow>
          (case solve elapsed mz0 of
             None \<Rightarrow> None
           | Some (Inl e) \<Rightarrow>
               Some \<lparr>exit_code = 1, cout = [], cerr = error_line e, output_file = None\<rparr>
           | Some (Inr (mz, err)) \<Rightarrow>
               (case print ws mz of
                  (out, Inl e) \<Rightarrow>
                    Some \<lparr>exit_code = 1, cout = out, cerr = err @ error_line e, output_file = None\<rparr>
                | (out, Inr text) \<Rightarrow>
                    Some \<lparr>exit_code = 0, cout = out, cerr = err, output_file = Some text\<rparr>)))"

section \<open>Specification vocabulary\<close>

subsection \<open>Input files\<close>

text \<open>The lines \<open>read_file\<close> keeps: the non-empty ones. The characters \<open>char_to_tile\<close>
  knows. \<open>grid_of\<close> is the tile array that the two nested loops of \<open>load\<close> fill.\<close>

definition usable_lines :: "string \<Rightarrow> string list" where
  "usable_lines bytes = filter (\<lambda>line. line \<noteq> []) (getlines [] bytes)"

definition allowed_char :: "char \<Rightarrow> bool" where
  "allowed_char c \<longleftrightarrow> c = CHR ''.'' \<or> c = CHR ''#'' \<or> c = CHR ''S'' \<or> c = CHR ''E''"

definition grid_of :: "string list \<Rightarrow> tile_t list" where
  "grid_of lines =
     concat (map (\<lambda>y. map (\<lambda>x. new_tile (lines ! y ! x) x y) [0..<length (lines ! 0)])
                 [0..<length lines])"

text \<open>A file said line by line, without reference to how the program reads it: \<open>file_of rows
  rest\<close> is the text in which each of \<open>rows\<close> is followed by a newline and \<open>rest\<close> follows the
  last newline; no row and not \<open>rest\<close> holds a newline (\<open>newline_free\<close>). Its lines are \<open>rows\<close>
  and, when it is not empty, \<open>rest\<close>; \<open>nonblank\<close> drops the empty ones. \<open>rows_rejected\<close> is the
  condition under which loading is said to fail once the file could be opened: no line is
  left, some line differs in length from the first, or some character is not allowed.\<close>

definition newline_free :: "string \<Rightarrow> bool" where
  "newline_free l \<longleftrightarrow> CHR 0x0A \<notin> set l"

definition file_of :: "string list \<Rightarrow> string \<Rightarrow> string" where
  "file_of rows rest = concat (map (\<lambda>r. r @ [CHR 0x0A]) rows) @ rest"

definition nonblank :: "string list \<Rightarrow> string \<Rightarrow> string list" where
  "nonblank rows rest = filter (\<lambda>l. l \<noteq> []) (rows @ [rest])"

definition rows_rejected :: "string list \<Rightarrow> bool" where
  "rows_rejected ls \<longleftrightarrow>
     ls = [] \<or> (\<exists>l \<in> set ls. length l \<noteq> length (hd ls)) \<or>
     (\<exists>l \<in> set ls. \<exists>c \<in> set l. \<not> allowed_char c)"

subsection \<open>The grid\<close>

text \<open>\<open>grid_ok\<close>: every in-bounds coordinate has its tile in the array, and the tile knows its
  position. \<open>same_grid\<close>: two arrays agree on kinds and positions; the search only ever
  writes states. \<open>edges\<close>: one unit move from a tile onto an orthogonally adjacent in-bounds
  tile that is not a wall; a path is a chain of such moves.\<close>

definition grid_ok :: "ivec2 \<Rightarrow> tile_t list \<Rightarrow> bool" where
  "grid_ok sz m \<longleftrightarrow>
     (\<forall>x y. 0 \<le> x \<and> x < xc sz \<and> 0 \<le> y \<and> y < yc sz \<longrightarrow>
        idx sz x y < length m \<and> pos (m ! idx sz x y) = \<lparr>xc = x, yc = y\<rparr>)"

definition same_grid :: "tile_t list \<Rightarrow> tile_t list \<Rightarrow> bool" where
  "same_grid m0 m \<longleftrightarrow>
     length m = length m0 \<and>
     (\<forall>i < length m0. type (m ! i) = type (m0 ! i) \<and> pos (m ! i) = pos (m0 ! i))"

definition edges :: "ivec2 \<Rightarrow> tile_t list \<Rightarrow> (nat \<times> nat) set" where
  "edges sz m =
     {(i, j). i < length m \<and>
        (\<exists>d < 4. 0 \<le> xc (ivec2_add (pos (m ! i)) (moves ! d)) \<and>
                 xc (ivec2_add (pos (m ! i)) (moves ! d)) < xc sz \<and>
                 0 \<le> yc (ivec2_add (pos (m ! i)) (moves ! d)) \<and>
                 yc (ivec2_add (pos (m ! i)) (moves ! d)) < yc sz \<and>
                 j = idx sz (xc (ivec2_add (pos (m ! i)) (moves ! d)))
                            (yc (ivec2_add (pos (m ! i)) (moves ! d))) \<and>
                 type (m ! j) \<noteq> tile_wall)}"

subsection \<open>Facings\<close>

text \<open>A facing is plain when it is one of the four directions, and marked when the \<open>path\<close>
  flag has been ORed to a plain one.\<close>

definition plain_dir :: "dir_e \<Rightarrow> bool" where
  "plain_dir d \<longleftrightarrow> d = dir_n \<or> d = dir_s \<or> d = dir_e \<or> d = dir_w"

definition marked_dir :: "dir_e \<Rightarrow> bool" where
  "marked_dir d \<longleftrightarrow> (\<exists>d'. plain_dir d' \<and> d = d' OR dir_path)"

definition unmarked :: "tile_t list \<Rightarrow> bool" where
  "unmarked m \<longleftrightarrow> (\<forall>t \<in> set m. dir (state t) = dir_none \<or> plain_dir (dir (state t)))"

subsection \<open>Invariants of the search loop\<close>

text \<open>\<open>int32\<close>: the values of the source's \<open>int\<close>. \<open>small_grid\<close>: a grid on which no cost
  can leave that range, because a cost is at most 1001 for each tile that has one.\<close>

definition int32 :: "int \<Rightarrow> bool" where
  "int32 i \<longleftrightarrow> - 2147483648 \<le> i \<and> i \<le> 2147483647"

definition small_grid :: "tile_t list \<Rightarrow> bool" where
  "small_grid m \<longleftrightarrow> 1001 * (int (length m) + 1) \<le> 2147483647"

text \<open>A tile is visited when its facing is a direction: it is the start tile or has been relaxed.
  \<open>tile_ok\<close> holds of every tile during the search whatever the costs do: the cost is an
  \<open>int\<close>, a tile with a cost is visited, a visited tile is not a wall and can be reached from
  the start, and the parent of a visited tile other than the start is a visited tile.
  \<open>core_inv\<close> adds that every frontier entry is a visited tile; \<open>search_inv\<close> adds that the end
  tile is in the frontier once it is visited and that every neighbour of a visited tile that
  is not in the frontier is visited. \<open>search_post\<close> is what holds when the loop is left.\<close>

definition visited :: "tile_t list \<Rightarrow> nat \<Rightarrow> bool" where
  "visited m i \<longleftrightarrow> plain_dir (dir (state (m ! i)))"

definition tile_ok :: "ivec2 \<Rightarrow> tile_t list \<Rightarrow> nat \<Rightarrow> tile_t list \<Rightarrow> nat \<Rightarrow> bool" where
  "tile_ok sz m0 s m i \<longleftrightarrow>
     int32 (g_cost (state (m ! i))) \<and>
     (dir (state (m ! i)) = dir_none \<or> visited m i) \<and>
     (g_cost (state (m ! i)) \<noteq> 0 \<longrightarrow> visited m i) \<and>
     (visited m i \<longrightarrow> (s, i) \<in> (edges sz m0)\<^sup>* \<and> type (m0 ! i) \<noteq> tile_wall) \<and>
     (visited m i \<and> i \<noteq> s \<longrightarrow>
        p_idx (state (m ! i)) < length m0 \<and> visited m (p_idx (state (m ! i))))"

definition core_inv :: "ivec2 \<Rightarrow> tile_t list \<Rightarrow> nat \<Rightarrow> maze_t \<times> nat list \<Rightarrow> bool" where
  "core_inv sz m0 s st \<longleftrightarrow>
     (case st of (mz, pq) \<Rightarrow>
        size_v mz = sz \<and> path_cost mz = - 1 \<and> same_grid m0 (map_v mz) \<and>
        visited (map_v mz) s \<and>
        (\<forall>i \<in> set pq. i < length m0 \<and> visited (map_v mz) i) \<and>
        (\<forall>i < length m0. tile_ok sz m0 s (map_v mz) i))"

definition closed_but :: "nat set \<Rightarrow> ivec2 \<Rightarrow> tile_t list \<Rightarrow> maze_t \<times> nat list \<Rightarrow> bool" where
  "closed_but X sz m0 st \<longleftrightarrow>
     (case st of (mz, pq) \<Rightarrow>
        \<forall>i < length m0. visited (map_v mz) i \<and> i \<notin> set pq \<and> i \<notin> X \<longrightarrow>
          (\<forall>j. (i, j) \<in> edges sz m0 \<longrightarrow> visited (map_v mz) j))"

definition search_inv :: "ivec2 \<Rightarrow> tile_t list \<Rightarrow> nat \<Rightarrow> nat \<Rightarrow> maze_t \<times> nat list \<Rightarrow> bool" where
  "search_inv sz m0 s e st \<longleftrightarrow>
     core_inv sz m0 s st \<and> closed_but {} sz m0 st \<and>
     (visited (map_v (fst st)) e \<longrightarrow> e \<in> set (snd st))"

definition search_post :: "ivec2 \<Rightarrow> tile_t list \<Rightarrow> nat \<Rightarrow> nat \<Rightarrow> maze_t \<Rightarrow> bool" where
  "search_post sz m0 s e mz \<longleftrightarrow>
     size_v mz = sz \<and> same_grid m0 (map_v mz) \<and>
     (\<forall>i < length m0. tile_ok sz m0 s (map_v mz) i) \<and>
     ((path_cost mz = - 1 \<and> (s, e) \<notin> (edges sz m0)\<^sup>*) \<or>
      (path_cost mz = g_cost (state (map_v mz ! e)) \<and> visited (map_v mz) e))"

text \<open>On a small grid the costs behave as integers. \<open>nz\<close> counts the tiles that have a cost.
  \<open>parent_ok\<close>: a tile other than the start that has a cost has its parent in the array, and
  the parent is the start or has a smaller positive cost. \<open>cost_ok\<close>: the cost is not
  negative and at most 1001 for each tile that has a cost, and a visited tile other than
  the start has a positive cost.\<close>

definition nz :: "tile_t list \<Rightarrow> nat" where
  "nz m = sum_list (map (\<lambda>t. if g_cost (state t) = 0 then 0 else 1) m)"

definition parent_ok :: "tile_t list \<Rightarrow> nat \<Rightarrow> nat \<Rightarrow> bool" where
  "parent_ok m s i \<longleftrightarrow>
     (i \<noteq> s \<and> 0 < g_cost (state (m ! i)) \<longrightarrow>
        p_idx (state (m ! i)) < length m \<and>
        (p_idx (state (m ! i)) = s \<or>
         (0 < g_cost (state (m ! p_idx (state (m ! i)))) \<and>
          g_cost (state (m ! p_idx (state (m ! i)))) < g_cost (state (m ! i)))))"

definition cost_ok :: "tile_t list \<Rightarrow> nat \<Rightarrow> nat \<Rightarrow> bool" where
  "cost_ok m s i \<longleftrightarrow>
     0 \<le> g_cost (state (m ! i)) \<and> g_cost (state (m ! i)) \<le> 1001 * int (nz m) \<and>
     (visited m i \<and> i \<noteq> s \<longrightarrow> 0 < g_cost (state (m ! i))) \<and>
     parent_ok m s i"

definition small_inv :: "tile_t list \<Rightarrow> nat \<Rightarrow> bool" where
  "small_inv m s \<longleftrightarrow> (\<forall>i < length m. cost_ok m s i)"

text \<open>What holds of the array during the walk back along the parents: a tile faces nowhere,
  or it is not a wall and its facing is a direction, with or without the \<open>path\<close> flag; the
  parent of a tile that faces somewhere, the start apart, is in the array and faces
  somewhere.\<close>

definition walk_inv :: "tile_t list \<Rightarrow> nat \<Rightarrow> tile_t list \<Rightarrow> bool" where
  "walk_inv m0 s m \<longleftrightarrow>
     same_grid m0 m \<and>
     (\<forall>i < length m0.
        (dir (state (m ! i)) = dir_none \<or>
         ((plain_dir (dir (state (m ! i))) \<or> marked_dir (dir (state (m ! i)))) \<and>
          type (m0 ! i) \<noteq> tile_wall)) \<and>
        (i \<noteq> s \<and> dir (state (m ! i)) \<noteq> dir_none \<longrightarrow>
           p_idx (state (m ! i)) < length m0 \<and>
           dir (state (m ! p_idx (state (m ! i)))) \<noteq> dir_none))"

text \<open>The loop's variant, compared lexicographically: the number of tiles whose cost is not
  negative; the number of frontier entries with a negative cost plus twice the room left
  below the negative costs; the number of tiles without a cost; the sum of the positive
  costs; the length of the frontier. A relaxation that makes a cost negative lowers the
  first, one that lowers a negative cost the second, one that gives a first positive cost the
  third, one that lowers a positive cost the fourth. An expansion that relaxes nothing has
  popped an entry. Only the expansion of a tile with a negative cost can write the cost 0;
  popping that tile has lowered the second component.\<close>

definition na :: "tile_t list \<Rightarrow> nat" where
  "na m = sum_list (map (\<lambda>t. if g_cost (state t) < 0 then 0 else 1) m)"

definition nw :: "tile_t list \<Rightarrow> nat" where
  "nw m = sum_list (map (\<lambda>t. if g_cost (state t) < 0 then nat (g_cost (state t) + 2147483648) else 0) m)"

definition nq :: "tile_t list \<Rightarrow> nat list \<Rightarrow> nat" where
  "nq m pq = sum_list (map (\<lambda>i. if g_cost (state (m ! i)) < 0 then 1 else 0) pq)"

definition zc :: "tile_t list \<Rightarrow> nat" where
  "zc m = sum_list (map (\<lambda>t. if g_cost (state t) = 0 then 1 else 0) m)"

definition gs :: "tile_t list \<Rightarrow> nat" where
  "gs m = sum_list (map (\<lambda>t. nat (g_cost (state t))) m)"

definition rank2 :: "maze_t \<times> nat list \<Rightarrow> nat \<times> nat" where
  "rank2 st = (na (map_v (fst st)), nq (map_v (fst st)) (snd st) + 2 * nw (map_v (fst st)))"

definition rank2_rel :: "((maze_t \<times> nat list) \<times> (maze_t \<times> nat list)) set" where
  "rank2_rel = inv_image (less_than <*lex*> less_than) rank2"

definition rank_rel :: "((maze_t \<times> nat list) \<times> (maze_t \<times> nat list)) set" where
  "rank_rel = inv_image (less_than <*lex*> less_than <*lex*> less_than <*lex*> less_than <*lex*> less_than)
                (\<lambda>st. (fst (rank2 st), snd (rank2 st), zc (map_v (fst st)), gs (map_v (fst st)),
                       length (snd st)))"

text \<open>For the proofs: \<open>neighbour\<close> is one edge, by its direction; \<open>grows\<close> relates the state of
  the loop before and after some visits from the tile \<open>cur\<close>: the state of \<open>cur\<close> stays, visited
  tiles stay visited, the frontier keeps its entries and holds every newly visited tile, the
  first two components of the variant do not rise, the variant falls when \<open>cur\<close> has no
  negative cost and something changed, and the costs stay those of a small grid.\<close>

definition neighbour :: "ivec2 \<Rightarrow> tile_t list \<Rightarrow> nat \<Rightarrow> nat \<Rightarrow> nat \<Rightarrow> bool" where
  "neighbour sz m i d j \<longleftrightarrow>
     0 \<le> xc (ivec2_add (pos (m ! i)) (moves ! d)) \<and>
     xc (ivec2_add (pos (m ! i)) (moves ! d)) < xc sz \<and>
     0 \<le> yc (ivec2_add (pos (m ! i)) (moves ! d)) \<and>
     yc (ivec2_add (pos (m ! i)) (moves ! d)) < yc sz \<and>
     j = idx sz (xc (ivec2_add (pos (m ! i)) (moves ! d)))
                (yc (ivec2_add (pos (m ! i)) (moves ! d))) \<and>
     type (m ! j) \<noteq> tile_wall"

definition grows ::
  "tile_t list \<Rightarrow> nat \<Rightarrow> nat \<Rightarrow> maze_t \<times> nat list \<Rightarrow> maze_t \<times> nat list \<Rightarrow> bool" where
  "grows m0 s cur st st' \<longleftrightarrow>
     state (map_v (fst st') ! cur) = state (map_v (fst st) ! cur) \<and>
     (\<forall>i. visited (map_v (fst st)) i \<longrightarrow> visited (map_v (fst st')) i) \<and>
     set (snd st) \<subseteq> set (snd st') \<and>
     (\<forall>i. visited (map_v (fst st')) i \<and> \<not> visited (map_v (fst st)) i \<longrightarrow> i \<in> set (snd st')) \<and>
     (rank2 st' = rank2 st \<or> (st', st) \<in> rank2_rel) \<and>
     (0 \<le> g_cost (state (map_v (fst st) ! cur)) \<longrightarrow> st' = st \<or> (st', st) \<in> rank_rel) \<and>
     (small_grid m0 \<and> small_inv (map_v (fst st)) s \<longrightarrow> small_inv (map_v (fst st')) s)"

subsection \<open>Vocabulary of the claims\<close>

text \<open>The error \<open>solve\<close> throws, the desired direction of the heuristic in the words of its
  description, the position of the last tile of a kind, the four path glyphs, putting the
  original character back under a path glyph (a path glyph is only ever drawn over an empty
  tile, whose character is the dot), and the summary lines of a run that found no path.\<close>

definition config_error :: error where
  "config_error = runtime_error ''Maze must have a start (S) and an end (E).''"

definition desired_direction :: "ivec2 \<Rightarrow> ivec2 \<Rightarrow> dir_e" where
  "desired_direction a b =
     (if xc a < xc b then dir_e
      else if xc b < xc a then dir_w
      else if yc a < yc b then dir_s
      else dir_n)"

definition last_index_of :: "tile_e \<Rightarrow> tile_t list \<Rightarrow> nat \<Rightarrow> bool" where
  "last_index_of ty m k \<longleftrightarrow>
     k < length m \<and> type (m ! k) = ty \<and> (\<forall>j < length m. k < j \<longrightarrow> type (m ! j) \<noteq> ty)"



definition no_path_summary :: "nat \<Rightarrow> nat \<Rightarrow> int \<Rightarrow> int \<Rightarrow> string" where
  "no_path_summary w h elapsed n =
     ''Dimensions: '' @ show_int (int w) @ '' x '' @ show_int (int h) @ endl
     @ ''Solved in: '' @ show_int elapsed @ '' ms. Search count: '' @ show_int n @ endl
     @ ''Best path cost -1 points'' @ endl"

text \<open>The cost of a sequence of unit moves and 90-degree turns: 1 for each move and 1000 for
  each quarter turn, a reversal being two quarter turns. \<open>walk\<close> follows the moves through a
  maze and fails when one leaves the grid or enters a wall.\<close>

definition turns :: "dir_e \<Rightarrow> dir_e \<Rightarrow> int" where
  "turns a b =
     (if a = b then 0
      else if (a = dir_n \<and> b = dir_s) \<or> (a = dir_s \<and> b = dir_n) \<or>
              (a = dir_e \<and> b = dir_w) \<or> (a = dir_w \<and> b = dir_e) then 2
      else 1)"

fun walk_cost :: "dir_e \<Rightarrow> dir_e list \<Rightarrow> int" where
  "walk_cost facing [] = 0"
| "walk_cost facing (d # ds) = 1000 * turns facing d + 1 + walk_cost d ds"

fun walk :: "maze_t \<Rightarrow> ivec2 \<Rightarrow> dir_e list \<Rightarrow> ivec2 option" where
  "walk mz p [] = Some p"
| "walk mz p (d # ds) =
     (let n = ivec2_add p (moves ! unat d)
      in if xc n < 0 \<or> xc n \<ge> xc (size_v mz) \<or> yc n < 0 \<or> yc n \<ge> yc (size_v mz) then None
         else if type (map_v mz ! idx (size_v mz) (xc n) (yc n)) = tile_wall then None
         else walk mz n ds)"

text \<open>The search of \<open>solve\<close> on its own: what \<open>solve\<close> does, on a maze with a start and an end
  tile, up to the end of its \<^verbatim>\<open>while (!pq.empty())\<close> loop.\<close>

definition search_of :: "maze_t \<Rightarrow> maze_t option" where
  "search_of mz0 =
     (let mz = mz0\<lparr>solve_time := 0, search_count := 1, path_cost := -1\<rparr>;
          mz = mz\<lparr>map_v := map reset_tile (map_v mz)\<rparr>;
          se = locate (map_v mz) 0 (-1, -1);
          s = nat (fst se);
          e = nat (snd se);
          start_tile = map_v mz ! s;
          mz = mz\<lparr>map_v := (map_v mz)[s := start_tile\<lparr>state := (state start_tile)\<lparr>dir := dir_e\<rparr>\<rparr>]\<rparr>
      in search_loop e mz (pq_push (map_v mz) s []))"

subsection \<open>Example mazes\<close>

text \<open>The mazes of the files \<^verbatim>\<open>SE\<close>, \<^verbatim>\<open>SSE\<close>, \<^verbatim>\<open>S.E\<close>, \<^verbatim>\<open>S#E\<close>, \<^verbatim>\<open>S#SE\<close>, \<^verbatim>\<open>SE#S\<close> and of the
  three-row file \<^verbatim>\<open>E##\<close>, \<^verbatim>\<open>...\<close>, \<^verbatim>\<open>#.S\<close>, as loaded and as \<open>solve\<close> leaves them; for \<^verbatim>\<open>S.E\<close>
  also the maze as the search loop is entered and as it is after the start tile has been
  expanded.\<close>

definition mk_tile :: "tile_e \<Rightarrow> int \<Rightarrow> int \<Rightarrow> dir_e \<Rightarrow> int \<Rightarrow> int \<Rightarrow> nat \<Rightarrow> tile_t" where
  "mk_tile ty x y d g h p =
     \<lparr>type = ty, pos = \<lparr>xc = x, yc = y\<rparr>, state = \<lparr>dir = d, g_cost = g, h_cost = h, p_idx = p\<rparr>\<rparr>"

definition mk_maze :: "int \<Rightarrow> int \<Rightarrow> tile_t list \<Rightarrow> int \<Rightarrow> int \<Rightarrow> int \<Rightarrow> maze_t" where
  "mk_maze w h m t n c =
     \<lparr>size_v = \<lparr>xc = w, yc = h\<rparr>, map_v = m, solve_time = t, search_count = n, path_cost = c\<rparr>"

definition maze_SE :: maze_t where
  "maze_SE = mk_maze 2 1
     [mk_tile tile_start 0 0 dir_none 0 0 0, mk_tile tile_end 1 0 dir_none 0 0 0] 0 0 0"

definition maze_SE_solved :: maze_t where
  "maze_SE_solved = mk_maze 2 1
     [mk_tile tile_start 0 0 dir_e 0 0 0, mk_tile tile_end 1 0 (dir_e OR dir_path) 1 1000 0] 0 2 1"

definition maze_SSE :: maze_t where
  "maze_SSE = mk_maze 3 1
     [mk_tile tile_start 0 0 dir_none 0 0 0, mk_tile tile_start 1 0 dir_none 0 0 0,
      mk_tile tile_end 2 0 dir_none 0 0 0] 0 0 0"

definition maze_SSE_solved :: maze_t where
  "maze_SSE_solved = mk_maze 3 1
     [mk_tile tile_start 0 0 dir_w 1001 1002 1, mk_tile tile_start 1 0 dir_e 0 0 0,
      mk_tile tile_end 2 0 (dir_e OR dir_path) 1 1000 1] 0 3 1"

definition maze_SdotE :: maze_t where
  "maze_SdotE = mk_maze 3 1
     [mk_tile tile_start 0 0 dir_none 0 0 0, mk_tile tile_empty 1 0 dir_none 0 0 0,
      mk_tile tile_end 2 0 dir_none 0 0 0] 0 0 0"

definition maze_SdotE_solved :: maze_t where
  "maze_SdotE_solved = mk_maze 3 1
     [mk_tile tile_start 0 0 dir_w 1002 1002 1, mk_tile tile_empty 1 0 (dir_e OR dir_path) 1 1 0,
      mk_tile tile_end 2 0 (dir_e OR dir_path) 2 1000 1] 0 4 2"

definition maze_SwallE :: maze_t where
  "maze_SwallE = mk_maze 3 1
     [mk_tile tile_start 0 0 dir_none 0 0 0, mk_tile tile_wall 1 0 dir_none 0 0 0,
      mk_tile tile_end 2 0 dir_none 0 0 0] 0 0 0"

definition maze_two_routes :: maze_t where
  "maze_two_routes = mk_maze 3 3
     [mk_tile tile_end 0 0 dir_none 0 0 0, mk_tile tile_wall 1 0 dir_none 0 0 0,
      mk_tile tile_wall 2 0 dir_none 0 0 0,
      mk_tile tile_empty 0 1 dir_none 0 0 0, mk_tile tile_empty 1 1 dir_none 0 0 0,
      mk_tile tile_empty 2 1 dir_none 0 0 0,
      mk_tile tile_wall 0 2 dir_none 0 0 0, mk_tile tile_empty 1 2 dir_none 0 0 0,
      mk_tile tile_start 2 2 dir_none 0 0 0] 0 0 0"

definition maze_two_routes_solved :: maze_t where
  "maze_two_routes_solved = mk_maze 3 3
     [mk_tile tile_end 0 0 (dir_n OR dir_path) 4004 0 3, mk_tile tile_wall 1 0 dir_none 0 0 0,
      mk_tile tile_wall 2 0 dir_none 0 0 0,
      mk_tile tile_empty 0 1 (dir_w OR dir_path) 3003 1001 4,
      mk_tile tile_empty 1 1 (dir_n OR dir_path) 2002 2002 7,
      mk_tile tile_empty 2 1 dir_n 1001 2003 8,
      mk_tile tile_wall 0 2 dir_none 0 0 0, mk_tile tile_empty 1 2 (dir_w OR dir_path) 1001 1003 8,
      mk_tile tile_start 2 2 dir_e 2002 2004 7] 0 7 4004"

definition maze_SdotE_start :: maze_t where
  "maze_SdotE_start = mk_maze 3 1
     [mk_tile tile_start 0 0 dir_e 0 0 0, mk_tile tile_empty 1 0 dir_none 0 0 0,
      mk_tile tile_end 2 0 dir_none 0 0 0] 0 1 (- 1)"

definition maze_SdotE_mid :: maze_t where
  "maze_SdotE_mid = mk_maze 3 1
     [mk_tile tile_start 0 0 dir_e 0 0 0, mk_tile tile_empty 1 0 dir_e 1 1 0,
      mk_tile tile_end 2 0 dir_none 0 0 0] 0 2 (- 1)"

definition maze_SwallSE :: maze_t where
  "maze_SwallSE = mk_maze 4 1
     [mk_tile tile_start 0 0 dir_none 0 0 0, mk_tile tile_wall 1 0 dir_none 0 0 0,
      mk_tile tile_start 2 0 dir_none 0 0 0, mk_tile tile_end 3 0 dir_none 0 0 0] 0 0 0"

definition maze_SEwallS :: maze_t where
  "maze_SEwallS = mk_maze 4 1
     [mk_tile tile_start 0 0 dir_none 0 0 0, mk_tile tile_end 1 0 dir_none 0 0 0,
      mk_tile tile_wall 2 0 dir_none 0 0 0, mk_tile tile_start 3 0 dir_none 0 0 0] 0 0 0"

subsection \<open>Runs that do not depend on how the queue breaks ties\<close>

text \<open>The C++ standard fixes neither the order in which a \<^verbatim>\<open>std::priority_queue\<close> hands out
  entries that the comparison does not separate nor what happens when the state of a queued
  tile changes; the frontier above follows one library. \<open>strict_loop\<close> replays
  the search loop and answers whether, at every pop, every other tile in the frontier is
  strictly greater than the top, and whether every relaxation left the states of the queued
  tiles alone. A run with the answer \<open>True\<close> pops the same tiles under every implementation of
  the queue. \<open>strict_run\<close> starts it as \<open>solve\<close> starts the search.\<close>

definition strict_top :: "tile_t list \<Rightarrow> nat list \<Rightarrow> bool" where
  "strict_top m q \<longleftrightarrow>
     (\<forall>i \<in> set q. i \<noteq> pq_top q \<longrightarrow> state_gt (state (m ! i)) (state (m ! pq_top q)))"

definition keys_kept :: "tile_t list \<Rightarrow> tile_t list \<Rightarrow> nat list \<Rightarrow> bool" where
  "keys_kept m m' q \<longleftrightarrow> (\<forall>i \<in> set q. state (m' ! i) = state (m ! i))"

partial_function (option) strict_loop :: "nat \<Rightarrow> maze_t \<Rightarrow> nat list \<Rightarrow> bool option" where
  "strict_loop end_idx mz pq =
     (if pq = [] then Some True
      else if \<not> strict_top (map_v mz) pq then Some False
      else
        let current_idx = pq_top pq;
            pq1 = pq_pop (map_v mz) pq
        in if current_idx = end_idx then Some True
           else (case explore end_idx current_idx (mz, pq1) of
                   (mz2, pq2) \<Rightarrow>
                     if keys_kept (map_v mz) (map_v mz2) pq1 then strict_loop end_idx mz2 pq2
                     else Some False))"

declare strict_loop.simps [code]

definition strict_run :: "maze_t \<Rightarrow> bool option" where
  "strict_run mz0 =
     (let mz = mz0\<lparr>solve_time := 0, search_count := 1, path_cost := -1\<rparr>;
          mz = mz\<lparr>map_v := map reset_tile (map_v mz)\<rparr>;
          se = locate (map_v mz) 0 (-1, -1);
          s = nat (fst se);
          e = nat (snd se);
          start_tile = map_v mz ! s;
          mz = mz\<lparr>map_v := (map_v mz)[s := start_tile\<lparr>state := (state start_tile)\<lparr>dir := dir_e\<rparr>\<rparr>]\<rparr>
      in strict_loop e mz (pq_push (map_v mz) s []))"

section \<open>Proofs\<close>

subsection \<open>The frontier keeps its entries\<close>

text \<open>Whatever the states are, the heap algorithms only permute the vector: pushing adds the
  entry, popping removes the front.\<close>

lemma mset_hole_move:
  assumes "h < length c" and "k < length c" and "k \<noteq> h"
  shows "mset (c[h := c ! k, k := x]) = mset (c[h := x])"
  using assms by (simp add: mset_update nth_list_update)

lemma push_heap_loop_props:
  "h < length c \<Longrightarrow>
   mset (push_heap_loop m c h t v) = mset (c[h := v]) \<and>
   length (push_heap_loop m c h t v) = length c \<and>
   (\<forall>k. h < k \<longrightarrow> push_heap_loop m c h t v ! k = c ! k)"
proof (induction m c h t v rule: push_heap_loop.induct)
  case (1 m c holeIndex topIndex v)
  let ?p = "(holeIndex - 1) div 2"
  show ?case
  proof (cases "holeIndex > topIndex \<and> priority_fn m (c ! ?p) v")
    case True
    then have lt: "?p < holeIndex" by arith
    with 1(2) have pl: "?p < length (c[holeIndex := c ! ?p])" by simp
    from 1(1) [OF refl True pl]
    have ih: "mset (push_heap_loop m (c[holeIndex := c ! ?p]) ?p topIndex v) = mset (c[holeIndex := c ! ?p, ?p := v])"
      "length (push_heap_loop m (c[holeIndex := c ! ?p]) ?p topIndex v) = length c"
      "\<forall>k. ?p < k \<longrightarrow> push_heap_loop m (c[holeIndex := c ! ?p]) ?p topIndex v ! k = c[holeIndex := c ! ?p] ! k"
      by simp_all
    have eq: "push_heap_loop m c holeIndex topIndex v = push_heap_loop m (c[holeIndex := c ! ?p]) ?p topIndex v"
      using True by (subst push_heap_loop.simps) (simp add: Let_def)
    have "mset (c[holeIndex := c ! ?p, ?p := v]) = mset (c[holeIndex := v])"
      using 1(2) lt by (intro mset_hole_move) simp_all
    with ih eq lt show ?thesis by auto
  next
    case False
    then have "push_heap_loop m c holeIndex topIndex v = c[holeIndex := v]"
      by (subst push_heap_loop.simps) (auto simp: Let_def)
    then show ?thesis by simp
  qed
qed

lemma adjust_heap_loop_props:
  "h < len \<Longrightarrow> len \<le> length c \<Longrightarrow> sc = h \<Longrightarrow>
   (case adjust_heap_loop m c h sc len of (c1, h1, sc1) \<Rightarrow>
      (\<forall>x. mset (c1[h1 := x]) = mset (c[h := x])) \<and> length c1 = length c \<and> h1 < len \<and> sc1 = h1 \<and>
      (\<forall>k. len \<le> k \<longrightarrow> c1 ! k = c ! k))"
proof (induction m c h sc len rule: adjust_heap_loop.induct)
  case (1 m c holeIndex secondChild len)
  show ?case
  proof (cases "secondChild < (len - 1) div 2")
    case True
    define sc0 where "sc0 = 2 * (secondChild + 1)"
    define sc' where "sc' = (if priority_fn m (c ! sc0) (c ! (sc0 - 1)) then sc0 - 1 else sc0)"
    have b: "sc' < len" "holeIndex < sc'" using True 1(4) by (auto simp: sc'_def sc0_def)
    have eq: "adjust_heap_loop m c holeIndex secondChild len =
              adjust_heap_loop m (c[holeIndex := c ! sc']) sc' sc' len"
      using True by (subst adjust_heap_loop.simps) (simp add: Let_def sc'_def sc0_def)
    from 1(1) [OF True sc0_def sc'_def] b 1(3)
    have ih: "case adjust_heap_loop m (c[holeIndex := c ! sc']) sc' sc' len of (c1, h1, sc1) \<Rightarrow>
      (\<forall>x. mset (c1[h1 := x]) = mset (c[holeIndex := c ! sc', sc' := x])) \<and> length c1 = length c \<and> h1 < len \<and> sc1 = h1 \<and>
      (\<forall>k. len \<le> k \<longrightarrow> c1 ! k = c[holeIndex := c ! sc'] ! k)"
      by (simp add: sc0_def sc'_def)
    have m: "\<And>x. mset (c[holeIndex := c ! sc', sc' := x]) = mset (c[holeIndex := x])"
      using b 1(2,3) by (intro mset_hole_move) simp_all
    have u: "\<And>k. len \<le> k \<Longrightarrow> c[holeIndex := c ! sc'] ! k = c ! k"
      using 1(2) by simp
    show ?thesis unfolding eq using ih m u by (auto split: prod.splits)
  next
    case False
    then have "adjust_heap_loop m c holeIndex secondChild len = (c, holeIndex, secondChild)"
      by (subst adjust_heap_loop.simps) simp
    then show ?thesis using 1(2,4) by simp
  qed
qed

lemma adjust_heap_props:
  assumes "h < len" and "len \<le> length c"
  shows "mset (adjust_heap m c h len v) = mset (c[h := v]) \<and>
         length (adjust_heap m c h len v) = length c \<and>
         (\<forall>k. len \<le> k \<longrightarrow> adjust_heap m c h len v ! k = c ! k)"
proof -
  obtain c1 h1 sc1 where r: "adjust_heap_loop m c h h len = (c1, h1, sc1)"
    by (cases "adjust_heap_loop m c h h len") auto
  from adjust_heap_loop_props [OF assms refl, of m] r
  have p: "\<And>x. mset (c1[h1 := x]) = mset (c[h := x])" "length c1 = length c" "h1 < len" "sc1 = h1"
    "\<And>k. len \<le> k \<Longrightarrow> c1 ! k = c ! k" by auto
  show ?thesis
  proof (cases "len mod 2 = 0 \<and> sc1 = (len - 2) div 2")
    case True
    let ?k = "2 * (sc1 + 1) - 1"
    from True assms(1) have k: "?k < len" "h1 < ?k" using p(3,4) by presburger+
    have eq: "adjust_heap m c h len v = push_heap_loop m (c1[h1 := c1 ! ?k]) ?k h v"
      using r True by (simp add: adjust_heap_def)
    have kl: "?k < length (c1[h1 := c1 ! ?k])" using k assms(2) p(2) by simp
    note ph = push_heap_loop_props [OF kl, of m h v]
    have "mset (c1[h1 := c1 ! ?k, ?k := v]) = mset (c1[h1 := v])"
      using k p(2,3) assms(2) by (intro mset_hole_move) simp_all
    with ph p(1) [of v] have 1: "mset (adjust_heap m c h len v) = mset (c[h := v])" unfolding eq by simp
    from ph p(2) have 2: "length (adjust_heap m c h len v) = length c" unfolding eq by simp
    have 3: "\<forall>k. len \<le> k \<longrightarrow> adjust_heap m c h len v ! k = c ! k"
    proof (intro allI impI)
      fix j assume j: "len \<le> j"
      with k have "?k < j" by simp
      with ph have "adjust_heap m c h len v ! j = c1[h1 := c1 ! ?k] ! j" unfolding eq by blast
      also have "\<dots> = c1 ! j" using j p(3) by simp
      also have "\<dots> = c ! j" using j by (rule p(5))
      finally show "adjust_heap m c h len v ! j = c ! j" .
    qed
    from 1 2 3 show ?thesis by blast
  next
    case False
    have eq: "adjust_heap m c h len v = push_heap_loop m c1 h1 h v"
      using r False by (auto simp: adjust_heap_def)
    have kl: "h1 < length c1" using p(2,3) assms(2) by simp
    note ph = push_heap_loop_props [OF kl, of m h v]
    from ph p(1) [of v] have 1: "mset (adjust_heap m c h len v) = mset (c[h := v])" unfolding eq by simp
    from ph p(2) have 2: "length (adjust_heap m c h len v) = length c" unfolding eq by simp
    have 3: "\<forall>k. len \<le> k \<longrightarrow> adjust_heap m c h len v ! k = c ! k"
    proof (intro allI impI)
      fix j assume j: "len \<le> j"
      with p(3) have "h1 < j" by simp
      with ph have "adjust_heap m c h len v ! j = c1 ! j" unfolding eq by blast
      also have "\<dots> = c ! j" using j by (rule p(5))
      finally show "adjust_heap m c h len v ! j = c ! j" .
    qed
    from 1 2 3 show ?thesis by blast
  qed
qed

lemma pq_push_mset: "mset (pq_push m i q) = add_mset i (mset q)"
proof -
  have "length q < length (q @ [i])" by simp
  from push_heap_loop_props [OF this, of m 0 i]
  show ?thesis by (simp add: pq_push_def push_heap_def)
qed

lemma pq_pop_mset:
  assumes "q \<noteq> []"
  shows "add_mset (pq_top q) (mset (pq_pop m q)) = mset q"
proof (cases "length q > 1")
  case True
  let ?n = "length q - 1"
  let ?c = "q[?n := q ! 0]"
  let ?r = "adjust_heap m ?c 0 ?n (q ! ?n)"
  have r: "pop_heap m q = ?r" using True by (simp add: pop_heap_def)
  from True have a: "0 < ?n" "?n \<le> length ?c" by simp_all
  from adjust_heap_props [OF a, of m "q ! ?n"]
  have p: "mset ?r = mset (?c[0 := q ! ?n])" "length ?r = length q" "?r ! ?n = ?c ! ?n"
    by simp_all
  have "0 < length q" "?n < length q" using True by arith+
  then have "mset (?c[0 := q ! ?n]) = mset q" by (rule mset_swap)
  with p(1) have ms: "mset ?r = mset q" by simp
  have ne: "?r \<noteq> []"
  proof
    assume "?r = []"
    then have "length ?r = 0" by (rule arg_cong [where f = length, THEN trans]) simp
    with p(2) True show False by simp
  qed
  have "last ?r = ?r ! ?n" using ne p(2) by (simp add: last_conv_nth)
  also have "\<dots> = q ! 0" using p(3) True by simp
  finally have l: "last ?r = q ! 0" .
  have "mset ?r = add_mset (last ?r) (mset (butlast ?r))"
    using ne by (metis append_butlast_last_id mset.simps(2) mset_append union_mset_add_mset_right add.right_neutral mset.simps(1))
  with ms l show ?thesis by (simp add: pq_pop_def pq_top_def r)
next
  case False
  with assms have "length q = 1" by (cases q) auto
  then obtain x where "q = [x]" by (cases q) auto
  then show ?thesis by (simp add: pq_pop_def pq_top_def pop_heap_def)
qed

lemma pq_push_set: "set (pq_push m i q) = insert i (set q)"
  using pq_push_mset [of m i q] by (metis set_mset_add_mset_insert set_mset_mset)

lemma pq_push_length: "length (pq_push m i q) = Suc (length q)"
  using pq_push_mset [of m i q] by (metis size_add_mset size_mset)

lemma pq_top_in: "q \<noteq> [] \<Longrightarrow> pq_top q \<in> set q"
  by (simp add: pq_top_def)

lemma pq_pop_subset: "q \<noteq> [] \<Longrightarrow> set (pq_pop m q) \<subseteq> set q"
  using pq_pop_mset [of q m] by (metis set_mset_add_mset_insert set_mset_mset subset_insertI)

lemma pq_pop_length: "q \<noteq> [] \<Longrightarrow> Suc (length (pq_pop m q)) = length q"
  using pq_pop_mset [of q m] by (metis size_add_mset size_mset)

lemma pq_pop_set: "q \<noteq> [] \<Longrightarrow> set q = insert (pq_top q) (set (pq_pop m q))"
  using pq_pop_mset [of q m] by (metis set_mset_add_mset_insert set_mset_mset)

subsection \<open>32-bit sums\<close>

lemma wrap32_int32: "int32 (wrap32 i)"
proof -
  have "0 \<le> (i + 2147483648) mod 4294967296" "(i + 2147483648) mod 4294967296 < 4294967296"
    by simp_all
  then show ?thesis unfolding int32_def wrap32_def by linarith
qed

lemma wrap32_id: "int32 i \<Longrightarrow> wrap32 i = i"
  unfolding int32_def wrap32_def by (simp add: mod_pos_pos_trivial)

lemma wrap32_over:
  assumes "2147483648 \<le> i" and "i < 6442450944"
  shows "wrap32 i = i - 4294967296"
proof -
  have "(i + 2147483648) mod 4294967296 = (i + 2147483648 - 4294967296) mod 4294967296"
    by (simp only: minus_mod_self2)
  also have "\<dots> = i + 2147483648 - 4294967296"
    using assms by (intro mod_pos_pos_trivial) simp_all
  finally show ?thesis by (simp add: wrap32_def)
qed

lemma add32_wraps: "add32 2147483647 1 = - 2147483648"
  by (simp add: add32_def wrap32_def)

lemma move_cost_range: "1 \<le> move_cost a d \<and> move_cost a d \<le> 1001"
  by (simp add: move_cost_def)

lemma add32_nonzero:
  assumes "int32 a" and "0 \<le> a" and "1 \<le> b" and "b \<le> 1001"
  shows "add32 a b \<noteq> 0"
proof (cases "a + b \<le> 2147483647")
  case True
  with assms have "int32 (a + b)" by (simp add: int32_def)
  then have "add32 a b = a + b" by (simp add: add32_def wrap32_id)
  with assms show ?thesis by simp
next
  case False
  with assms have "2147483648 \<le> a + b" "a + b < 6442450944" by (simp_all add: int32_def)
  then have "add32 a b = a + b - 4294967296" unfolding add32_def by (rule wrap32_over)
  with assms show ?thesis by (simp add: int32_def)
qed

subsection \<open>The variant\<close>

lemma wf_rank_rel: "wf rank_rel"
  unfolding rank_rel_def
  by (intro wf_inv_image wf_lex_prod wf_less_than)

lemma trans_rank_rel: "trans rank_rel"
  unfolding rank_rel_def
  by (intro trans_inv_image trans_lex_prod trans_less_than)

lemma trans_rank2_rel: "trans rank2_rel"
  unfolding rank2_rel_def
  by (intro trans_inv_image trans_lex_prod trans_less_than)

lemma rank2_rel_rank_rel: "(a, b) \<in> rank2_rel \<Longrightarrow> (a, b) \<in> rank_rel"
  by (cases "rank2 a"; cases "rank2 b") (auto simp: rank2_rel_def rank_rel_def)

lemma rank2_rel_eq: "rank2 a = rank2 b \<Longrightarrow> (b, c) \<in> rank2_rel \<Longrightarrow> (a, c) \<in> rank2_rel"
  by (simp add: rank2_rel_def)

lemma sum_list_map_update:
  fixes f :: "'a \<Rightarrow> nat"
  shows "i < length xs \<Longrightarrow> sum_list (map f (xs[i := v])) + f (xs ! i) = sum_list (map f xs) + f v"
  by (induction xs arbitrary: i) (auto split: nat.splits)

lemma zc_update:
  assumes "i < length m"
  shows "zc (m[i := t]) + (if g_cost (state (m ! i)) = 0 then 1 else 0) =
         zc m + (if g_cost (state t) = 0 then 1 else 0)"
  unfolding zc_def using sum_list_map_update [OF assms, where f = "\<lambda>t. if g_cost (state t) = 0 then 1 else 0"]
  by simp

lemma gs_update:
  assumes "i < length m"
  shows "gs (m[i := t]) + nat (g_cost (state (m ! i))) = gs m + nat (g_cost (state t))"
  unfolding gs_def using sum_list_map_update [OF assms, where f = "\<lambda>t. nat (g_cost (state t))"]
  by simp

lemma na_update:
  assumes "i < length m"
  shows "na (m[i := t]) + (if g_cost (state (m ! i)) < 0 then 0 else 1) =
         na m + (if g_cost (state t) < 0 then 0 else 1)"
  unfolding na_def using sum_list_map_update [OF assms, where f = "\<lambda>t. if g_cost (state t) < 0 then 0 else 1"]
  by simp

lemma nw_update:
  assumes "i < length m"
  shows "nw (m[i := t]) + (if g_cost (state (m ! i)) < 0 then nat (g_cost (state (m ! i)) + 2147483648) else 0) =
         nw m + (if g_cost (state t) < 0 then nat (g_cost (state t) + 2147483648) else 0)"
  unfolding nw_def
  using sum_list_map_update [OF assms, where f = "\<lambda>t. if g_cost (state t) < 0 then nat (g_cost (state t) + 2147483648) else 0"]
  by simp

lemma nz_update:
  assumes "i < length m"
  shows "nz (m[i := t]) + (if g_cost (state (m ! i)) = 0 then 0 else 1) =
         nz m + (if g_cost (state t) = 0 then 0 else 1)"
  unfolding nz_def using sum_list_map_update [OF assms, where f = "\<lambda>t. if g_cost (state t) = 0 then 0 else 1"]
  by simp

lemma nz_le: "nz m \<le> length m"
  unfolding nz_def by (induction m) auto

lemma nq_mset: "mset pq' = mset pq \<Longrightarrow> nq m pq' = nq m pq"
proof -
  assume "mset pq' = mset pq"
  then have "mset (map (\<lambda>i. if g_cost (state (m ! i)) < 0 then 1 else 0 :: nat) pq') =
             mset (map (\<lambda>i. if g_cost (state (m ! i)) < 0 then 1 else 0) pq)" by simp
  then have "sum_mset (mset (map (\<lambda>i. if g_cost (state (m ! i)) < 0 then 1 else 0 :: nat) pq')) =
             sum_mset (mset (map (\<lambda>i. if g_cost (state (m ! i)) < 0 then 1 else 0) pq))" by (rule arg_cong)
  then show ?thesis unfolding nq_def sum_mset_sum_list .
qed

lemma nq_add:
  assumes "mset pq' = add_mset i (mset pq)"
  shows "nq m pq' = (if g_cost (state (m ! i)) < 0 then 1 else 0) + nq m pq"
proof -
  from assms have "mset pq' = mset (i # pq)" by simp
  then have "nq m pq' = nq m (i # pq)" by (rule nq_mset)
  then show ?thesis by (simp add: nq_def)
qed

lemma nq_update:
  assumes "i < length m" and "g_cost (state t) < 0 \<longleftrightarrow> g_cost (state (m ! i)) < 0"
  shows "nq (m[i := t]) pq = nq m pq"
proof -
  have "map (\<lambda>j. if g_cost (state (m[i := t] ! j)) < 0 then 1 else 0 :: nat) pq =
        map (\<lambda>j. if g_cost (state (m ! j)) < 0 then 1 else 0) pq"
    using assms by (intro map_cong refl) (simp add: nth_list_update)
  then show ?thesis unfolding nq_def by (rule arg_cong)
qed

text \<open>What a relaxation does to the variant.\<close>

lemma rank_relax:
  assumes i: "i < length (map_v mz)"
    and old: "int32 (g_cost (state (map_v mz ! i)))" and new: "int32 (g_cost (state t))"
    and better: "g_cost (state (map_v mz ! i)) = 0 \<or> g_cost (state t) < g_cost (state (map_v mz ! i))"
    and pq': "mset pq' = add_mset i (mset pq)"
    and mz': "mz' = mz\<lparr>map_v := (map_v mz)[i := t], search_count := c\<rparr>"
  shows "rank2 (mz', pq') = rank2 (mz, pq) \<or> ((mz', pq'), (mz, pq)) \<in> rank2_rel"
    and "g_cost (state t) \<noteq> 0 \<Longrightarrow> ((mz', pq'), (mz, pq)) \<in> rank_rel"
proof -
  let ?m = "map_v mz" and ?m' = "(map_v mz)[i := t]"
  let ?o = "g_cost (state (?m ! i))" and ?g = "g_cost (state t)"
  have m': "map_v mz' = ?m'" using mz' by simp
  have ti: "?m' ! i = t" using i by simp
  note a = na_update [OF i, of t] and w = nw_update [OF i, of t] and z = zc_update [OF i, of t]
    and g = gs_update [OF i, of t]
  have q: "nq ?m' pq' = (if ?g < 0 then 1 else 0) + nq ?m' pq"
    using nq_add [OF pq', of ?m'] ti by simp
  consider (neg_new) "?g < 0" "0 \<le> ?o" | (neg_both) "?g < 0" "?o < 0" | (zero) "?g = 0"
    | (first) "0 < ?g" "?o = 0" | (lower) "0 < ?g" "0 < ?o" | (never) "0 < ?g" "?o < 0"
    by linarith
  then have "(rank2 (mz', pq') = rank2 (mz, pq) \<or> ((mz', pq'), (mz, pq)) \<in> rank2_rel) \<and>
             (?g \<noteq> 0 \<longrightarrow> ((mz', pq'), (mz, pq)) \<in> rank_rel)"
  proof cases
    case neg_new
    with a have "na ?m' < na ?m" by simp
    then show ?thesis by (simp add: rank2_rel_def rank_rel_def rank2_def m')
  next
    case neg_both
    with better have lt: "?g < ?o" by simp
    from neg_both a have 1: "na ?m' = na ?m" by simp
    from neg_both have "nq ?m' pq = nq ?m pq" using i by (intro nq_update) simp_all
    with q neg_both have 2: "nq ?m' pq' = 1 + nq ?m pq" by simp
    from new old neg_both lt w have 3: "nw ?m' < nw ?m" by (simp add: int32_def)
    from 1 2 3 show ?thesis by (simp add: rank2_rel_def rank_rel_def rank2_def m')
  next
    case zero
    with better old have o: "0 \<le> ?o" by auto
    from zero o a have 1: "na ?m' = na ?m" by simp
    from zero o have "nq ?m' pq = nq ?m pq" using i by (intro nq_update) simp_all
    with q zero have 2: "nq ?m' pq' = nq ?m pq" by simp
    from zero o w have 3: "nw ?m' = nw ?m" by simp
    from 1 2 3 zero show ?thesis by (simp add: rank2_def m')
  next
    case first
    from first a have 1: "na ?m' = na ?m" by simp
    from first have "nq ?m' pq = nq ?m pq" using i by (intro nq_update) simp_all
    with q first have 2: "nq ?m' pq' = nq ?m pq" by simp
    from first w have 3: "nw ?m' = nw ?m" by simp
    from first z have 4: "zc ?m' < zc ?m" by simp
    from 1 2 3 4 show ?thesis by (simp add: rank_rel_def rank2_def m')
  next
    case lower
    with better have lt: "?g < ?o" by simp
    from lower a have 1: "na ?m' = na ?m" by simp
    from lower have "nq ?m' pq = nq ?m pq" using i by (intro nq_update) simp_all
    with q lower have 2: "nq ?m' pq' = nq ?m pq" by simp
    from lower w have 3: "nw ?m' = nw ?m" by simp
    from lower z have 4: "zc ?m' = zc ?m" by simp
    from lower lt g have 5: "gs ?m' < gs ?m" by simp
    from 1 2 3 4 5 show ?thesis by (simp add: rank_rel_def rank2_def m')
  next
    case never
    with better show ?thesis by simp
  qed
  then show "rank2 (mz', pq') = rank2 (mz, pq) \<or> ((mz', pq'), (mz, pq)) \<in> rank2_rel"
    and "g_cost (state t) \<noteq> 0 \<Longrightarrow> ((mz', pq'), (mz, pq)) \<in> rank_rel" by simp_all
qed

subsection \<open>One relaxation keeps the invariants and lowers the variant\<close>

lemma relax_props:
  assumes "nidx < length m"
  shows "\<exists>t. relax e cur nidx d g m = m[nidx := t] \<and> type t = type (m ! nidx) \<and>
           pos t = pos (m ! nidx) \<and> dir (state t) = of_nat d \<and> g_cost (state t) = g \<and>
           p_idx (state t) = cur"
proof -
  let ?t = "relax e cur nidx d g m ! nidx"
  have "relax e cur nidx d g m = m[nidx := ?t]"
    using assms by (simp add: relax_def Let_def)
  moreover have "type ?t = type (m ! nidx)" "pos ?t = pos (m ! nidx)"
    "dir (state ?t) = of_nat d" "g_cost (state ?t) = g" "p_idx (state ?t) = cur"
    using assms by (simp_all add: relax_def Let_def)
  ultimately show ?thesis by blast
qed

lemma plain_dir_of_nat: "d < 4 \<Longrightarrow> plain_dir (of_nat d)"
proof -
  assume "d < 4"
  then have "d = 0 \<or> d = 1 \<or> d = 2 \<or> d = 3" by arith
  then show ?thesis
    by (auto simp: plain_dir_def dir_n_def dir_s_def dir_e_def dir_w_def)
qed

lemma plain_not_none: "plain_dir d \<Longrightarrow> d \<noteq> dir_none"
  by (auto simp: plain_dir_def dir_n_def dir_s_def dir_e_def dir_w_def dir_none_def)

lemma moves_nonzero: "d < 4 \<Longrightarrow> ivec2_add p (moves ! d) \<noteq> p"
proof -
  assume "d < 4"
  then have "d = 0 \<or> d = 1 \<or> d = 2 \<or> d = 3" by arith
  then show ?thesis
    by (auto simp: moves_def ivec2_add_def ivec2.equality dest: arg_cong[where f = xc] arg_cong[where f = yc])
qed

text \<open>What one visit does: nothing, because the neighbour is off the grid or a wall or because
  the candidate cost is no better, or one relaxation.\<close>

lemma visit_cases:
  "(visit e cur d (mz, pq) = (mz, pq) \<and>
    (\<forall>n. n = ivec2_add (pos (map_v mz ! cur)) (moves ! d) \<and>
          0 \<le> xc n \<and> xc n < xc (size_v mz) \<and> 0 \<le> yc n \<and> yc n < yc (size_v mz) \<and>
          type (map_v mz ! idx (size_v mz) (xc n) (yc n)) \<noteq> tile_wall \<longrightarrow>
          g_cost (state (map_v mz ! idx (size_v mz) (xc n) (yc n))) \<noteq> 0)) \<or>
   (\<exists>n nidx g. n = ivec2_add (pos (map_v mz ! cur)) (moves ! d) \<and>
      0 \<le> xc n \<and> xc n < xc (size_v mz) \<and> 0 \<le> yc n \<and> yc n < yc (size_v mz) \<and>
      nidx = idx (size_v mz) (xc n) (yc n) \<and>
      type (map_v mz ! nidx) \<noteq> tile_wall \<and>
      g = add32 (g_cost (state (map_v mz ! cur))) (move_cost (dir (state (map_v mz ! cur))) d) \<and>
      (g_cost (state (map_v mz ! nidx)) = 0 \<or> g < g_cost (state (map_v mz ! nidx))) \<and>
      visit e cur d (mz, pq) =
        (mz\<lparr>map_v := relax e cur nidx d g (map_v mz), search_count := add32 (search_count mz) 1\<rparr>,
         pq_push (relax e cur nidx d g (map_v mz)) nidx pq))"
  by (auto simp: visit_def Let_def)

lemma relax_preserves:
  assumes grid: "grid_ok sz m0" and s: "s < length m0"
    and inv: "core_inv sz m0 s (mz, pq)"
    and cur: "cur < length m0" "visited (map_v mz) cur"
    and d: "d < 4"
    and n: "n = ivec2_add (pos (map_v mz ! cur)) (moves ! d)"
    and bounds: "0 \<le> xc n" "xc n < xc sz" "0 \<le> yc n" "yc n < yc sz"
    and nidx: "nidx = idx sz (xc n) (yc n)"
    and nowall: "type (map_v mz ! nidx) \<noteq> tile_wall"
    and g: "g = add32 (g_cost (state (map_v mz ! cur))) (move_cost (dir (state (map_v mz ! cur))) d)"
    and better: "g_cost (state (map_v mz ! nidx)) = 0 \<or> g < g_cost (state (map_v mz ! nidx))"
    and mz': "mz' = mz\<lparr>map_v := relax e cur nidx d g (map_v mz), search_count := c\<rparr>"
    and pq': "pq' = pq_push (map_v mz') nidx pq"
  shows "core_inv sz m0 s (mz', pq')"
    and "nidx \<noteq> cur"
    and "\<forall>i. i \<noteq> nidx \<longrightarrow> map_v mz' ! i = map_v mz ! i"
    and "visited (map_v mz') nidx"
    and "set pq' = insert nidx (set pq)"
    and "rank2 (mz', pq') = rank2 (mz, pq) \<or> ((mz', pq'), (mz, pq)) \<in> rank2_rel"
    and "0 \<le> g_cost (state (map_v mz ! cur)) \<longrightarrow> ((mz', pq'), (mz, pq)) \<in> rank_rel"
    and "small_grid m0 \<and> small_inv (map_v mz) s \<longrightarrow> small_inv (map_v mz') s"
proof -
  let ?m = "map_v mz"
  from inv have sz: "size_v mz = sz" and pc: "path_cost mz = - 1"
    and same: "same_grid m0 ?m" and vs: "visited ?m s"
    and entries: "\<And>i. i \<in> set pq \<Longrightarrow> i < length m0 \<and> visited ?m i"
    and tiles: "\<And>i. i < length m0 \<Longrightarrow> tile_ok sz m0 s ?m i"
    by (auto simp: core_inv_def)
  from same have len: "length ?m = length m0"
    and static: "\<And>i. i < length m0 \<Longrightarrow> type (?m ! i) = type (m0 ! i) \<and> pos (?m ! i) = pos (m0 ! i)"
    by (auto simp: same_grid_def)
  from tiles [OF cur(1)] cur(2) have cur_reach: "(s, cur) \<in> (edges sz m0)\<^sup>*"
    and cur32: "int32 (g_cost (state (?m ! cur)))"
    by (simp_all add: tile_ok_def)
  from grid bounds nidx have nidx_lt: "nidx < length m0" and nidx_pos: "pos (m0 ! nidx) = \<lparr>xc = xc n, yc = yc n\<rparr>"
    by (auto simp: grid_ok_def)
  then have nidx_pos': "pos (m0 ! nidx) = n" by simp
  have pos_cur: "pos (m0 ! cur) = pos (?m ! cur)" using static cur(1) by simp
  show neq: "nidx \<noteq> cur"
  proof
    assume "nidx = cur"
    with nidx_pos' pos_cur n have "ivec2_add (pos (?m ! cur)) (moves ! d) = pos (?m ! cur)" by simp
    with moves_nonzero [OF d] show False by blast
  qed
  have nw0: "type (m0 ! nidx) \<noteq> tile_wall" using nowall static [OF nidx_lt] by simp
  have edge: "(cur, nidx) \<in> edges sz m0"
    using cur(1) d bounds nidx nw0 n pos_cur
    by (auto simp: edges_def)
  with cur_reach have reach: "(s, nidx) \<in> (edges sz m0)\<^sup>*" by (rule rtrancl_into_rtrancl)
  have g32: "int32 g" unfolding g add32_def by (rule wrap32_int32)
  from relax_props [of nidx ?m e cur d g] nidx_lt len
  obtain t where rel: "relax e cur nidx d g ?m = ?m[nidx := t]"
    and t_type: "type t = type (?m ! nidx)" and t_pos: "pos t = pos (?m ! nidx)"
    and t_dir: "dir (state t) = of_nat d" and t_g: "g_cost (state t) = g"
    and t_p: "p_idx (state t) = cur"
    by auto
  let ?m' = "?m[nidx := t]"
  have m'_eq: "map_v mz' = ?m'" using mz' rel by simp
  show same_else: "\<forall>i. i \<noteq> nidx \<longrightarrow> map_v mz' ! i = map_v mz ! i" unfolding m'_eq by simp
  have nth_same: "\<And>i. i \<noteq> nidx \<Longrightarrow> ?m' ! i = ?m ! i" by simp
  have nth_nidx: "?m' ! nidx = t" using nidx_lt len by simp
  have vn: "visited ?m' nidx" unfolding visited_def nth_nidx t_dir using d by (rule plain_dir_of_nat)
  then show "visited (map_v mz') nidx" unfolding m'_eq .
  have mono: "\<And>i. visited ?m i \<Longrightarrow> visited ?m' i"
  proof -
    fix i assume "visited ?m i"
    then show "visited ?m' i" using vn nth_same [of i] by (cases "i = nidx") (simp_all add: visited_def)
  qed
  have vis_else: "\<And>i. i \<noteq> nidx \<Longrightarrow> visited ?m' i = visited ?m i"
    by (simp add: visited_def)
  have same': "same_grid m0 ?m'"
    unfolding same_grid_def
  proof (intro conjI allI impI)
    show "length ?m' = length m0" using len by simp
  next
    fix i assume "i < length m0"
    then show "type (?m' ! i) = type (m0 ! i)"
      using static [of i] t_type nth_nidx by (cases "i = nidx") simp_all
  next
    fix i assume "i < length m0"
    then show "pos (?m' ! i) = pos (m0 ! i)"
      using static [of i] t_pos nth_nidx by (cases "i = nidx") simp_all
  qed
  have tile': "\<And>i. i < length m0 \<Longrightarrow> tile_ok sz m0 s ?m' i"
  proof -
    fix i assume i: "i < length m0"
    show "tile_ok sz m0 s ?m' i"
    proof (cases "i = nidx")
      case True
      have "visited ?m' cur" using cur(2) by (rule mono)
      then show ?thesis
        unfolding tile_ok_def True using vn g32 reach nw0 cur(1) by (simp add: nth_nidx t_g t_p)
    next
      case False
      from tiles [OF i] have o: "int32 (g_cost (state (?m ! i)))"
        "dir (state (?m ! i)) = dir_none \<or> visited ?m i"
        "g_cost (state (?m ! i)) \<noteq> 0 \<longrightarrow> visited ?m i"
        "visited ?m i \<longrightarrow> (s, i) \<in> (edges sz m0)\<^sup>* \<and> type (m0 ! i) \<noteq> tile_wall"
        "visited ?m i \<and> i \<noteq> s \<longrightarrow>
           p_idx (state (?m ! i)) < length m0 \<and> visited ?m (p_idx (state (?m ! i)))"
        by (simp_all add: tile_ok_def)
      have "visited ?m' i \<and> i \<noteq> s \<longrightarrow>
           p_idx (state (?m' ! i)) < length m0 \<and> visited ?m' (p_idx (state (?m' ! i)))"
        using o(5) mono False by (auto simp: vis_else [OF False])
      then show ?thesis
        unfolding tile_ok_def using o(1-4) False by (simp add: vis_else [OF False])
    qed
  qed
  have ms: "mset pq' = add_mset nidx (mset pq)" unfolding pq' by (rule pq_push_mset)
  show set': "set pq' = insert nidx (set pq)" unfolding pq' by (rule pq_push_set)
  show "core_inv sz m0 s (mz', pq')"
    unfolding core_inv_def
    using sz pc same' tile' mz' rel set' entries nidx_lt vn mono vs by auto
  have old32: "int32 (g_cost (state (?m ! nidx)))" using tiles [OF nidx_lt] by (simp add: tile_ok_def)
  have mzc: "mz' = mz\<lparr>map_v := ?m', search_count := c\<rparr>" using mz' rel by simp
  have nl: "nidx < length ?m" using nidx_lt len by simp
  have t32: "int32 (g_cost (state t))" and tb: "g_cost (state (?m ! nidx)) = 0 \<or> g_cost (state t) < g_cost (state (?m ! nidx))"
    using g32 better t_g by simp_all
  note r = rank_relax [OF nl old32 t32 tb ms mzc]
  from r(1) show "rank2 (mz', pq') = rank2 (mz, pq) \<or> ((mz', pq'), (mz, pq)) \<in> rank2_rel" .
  show "0 \<le> g_cost (state (?m ! cur)) \<longrightarrow> ((mz', pq'), (mz, pq)) \<in> rank_rel"
  proof
    assume "0 \<le> g_cost (state (?m ! cur))"
    with cur32 move_cost_range [of "dir (state (?m ! cur))" d]
    have "g \<noteq> 0" unfolding g by (intro add32_nonzero) simp_all
    with r(2) t_g show "((mz', pq'), (mz, pq)) \<in> rank_rel" by simp
  qed
  show "small_grid m0 \<and> small_inv ?m s \<longrightarrow> small_inv (map_v mz') s"
  proof
    assume a: "small_grid m0 \<and> small_inv ?m s"
    then have small: "1001 * (int (length m0) + 1) \<le> 2147483647"
      and costs: "\<And>i. i < length m0 \<Longrightarrow> cost_ok ?m s i"
      using len by (simp_all add: small_grid_def small_inv_def)
    from costs [OF cur(1)] cur(2) have c0: "0 \<le> g_cost (state (?m ! cur))"
      and cb: "g_cost (state (?m ! cur)) \<le> 1001 * int (nz ?m)"
      and cur_g: "cur = s \<or> 0 < g_cost (state (?m ! cur))"
      by (auto simp: cost_ok_def)
    let ?mc = "move_cost (dir (state (?m ! cur))) d"
    note mc = move_cost_range [of "dir (state (?m ! cur))" d]
    have nzl: "int (nz ?m) \<le> int (length m0)" using nz_le [of ?m] len by simp
    have "int32 (g_cost (state (?m ! cur)) + ?mc)"
      using c0 cb mc nzl small by (simp add: int32_def)
    then have g_eq: "g = g_cost (state (?m ! cur)) + ?mc" unfolding g add32_def by (rule wrap32_id)
    with c0 mc have gpos: "0 < g" and glt: "g_cost (state (?m ! cur)) < g" by simp_all
    from costs [OF nidx_lt] have o0: "0 \<le> g_cost (state (?m ! nidx))" by (simp add: cost_ok_def)
    from nz_update [OF nl, of t] t_g gpos
    have nz': "nz ?m' = (if g_cost (state (?m ! nidx)) = 0 then nz ?m + 1 else nz ?m)"
      by (cases "g_cost (state (?m ! nidx)) = 0") simp_all
    then have nz_mono: "nz ?m \<le> nz ?m'" by simp
    have gb: "g \<le> 1001 * int (nz ?m')"
    proof (cases "g_cost (state (?m ! nidx)) = 0")
      case True
      with nz' g_eq cb mc show ?thesis by simp
    next
      case False
      with better have "g < g_cost (state (?m ! nidx))" by simp
      moreover from costs [OF nidx_lt] have "g_cost (state (?m ! nidx)) \<le> 1001 * int (nz ?m)"
        by (simp add: cost_ok_def)
      ultimately show ?thesis using nz_mono by simp
    qed
    have parent': "\<And>i. i < length m0 \<Longrightarrow> parent_ok ?m' s i"
    proof -
      fix i assume i: "i < length m0"
      show "parent_ok ?m' s i"
      proof (cases "i = nidx")
        case True
        show ?thesis
          unfolding parent_ok_def True nth_nidx t_p t_g
          using cur(1) len cur_g glt neq by auto
      next
        case False
        from costs [OF i] have old: "parent_ok ?m s i" by (simp add: cost_ok_def)
        show ?thesis
        proof (cases "p_idx (state (?m ! i)) = nidx")
          case pn: True
          show ?thesis
            unfolding parent_ok_def
          proof (intro impI)
            assume a: "i \<noteq> s \<and> 0 < g_cost (state (?m' ! i))"
            with False have a': "i \<noteq> s \<and> 0 < g_cost (state (?m ! i))" by simp
            with old pn have o: "nidx = s \<or> (0 < g_cost (state (?m ! nidx)) \<and> g_cost (state (?m ! nidx)) < g_cost (state (?m ! i)))"
              by (simp add: parent_ok_def)
            show "p_idx (state (?m' ! i)) < length ?m' \<and>
                  (p_idx (state (?m' ! i)) = s \<or>
                   0 < g_cost (state (?m' ! p_idx (state (?m' ! i)))) \<and>
                   g_cost (state (?m' ! p_idx (state (?m' ! i)))) < g_cost (state (?m' ! i)))"
              using False pn nidx_lt len nth_nidx t_g gpos o better by auto
          qed
        next
          case pn: False
          then show ?thesis using old False by (simp add: parent_ok_def)
        qed
      qed
    qed
    have "\<And>i. i < length m0 \<Longrightarrow> cost_ok ?m' s i"
    proof -
      fix i assume i: "i < length m0"
      show "cost_ok ?m' s i"
      proof (cases "i = nidx")
        case True
        then show ?thesis
          unfolding cost_ok_def using parent' [OF i] gpos gb by (simp add: nth_nidx t_g)
      next
        case False
        from costs [OF i] have "0 \<le> g_cost (state (?m ! i))" "g_cost (state (?m ! i)) \<le> 1001 * int (nz ?m)"
          "visited ?m i \<and> i \<noteq> s \<longrightarrow> 0 < g_cost (state (?m ! i))"
          by (simp_all add: cost_ok_def)
        then show ?thesis
          unfolding cost_ok_def using parent' [OF i] False nz_mono by (simp add: vis_else [OF False])
      qed
    qed
    then show "small_inv (map_v mz') s" unfolding m'_eq small_inv_def using len by simp
  qed
qed

subsection \<open>The loop of \<open>solve\<close> ends\<close>

lemma edges_neighbour:
  "(i, j) \<in> edges sz m \<longleftrightarrow> i < length m \<and> (\<exists>d < 4. neighbour sz m i d j)"
  by (auto simp: edges_def neighbour_def)

lemma grows_refl: "grows m0 s cur st st"
  by (simp add: grows_def)

lemma grows_trans:
  assumes "grows m0 s cur st st1" and "grows m0 s cur st1 st2"
  shows "grows m0 s cur st st2"
proof -
  from assms have c: "state (map_v (fst st1) ! cur) = state (map_v (fst st) ! cur)"
    "state (map_v (fst st2) ! cur) = state (map_v (fst st1) ! cur)"
    by (simp_all add: grows_def)
  from assms have r2: "rank2 st1 = rank2 st \<or> (st1, st) \<in> rank2_rel"
    "rank2 st2 = rank2 st1 \<or> (st2, st1) \<in> rank2_rel"
    by (simp_all add: grows_def)
  have 5: "rank2 st2 = rank2 st \<or> (st2, st) \<in> rank2_rel"
    using r2 trans_rank2_rel by (auto simp: rank2_rel_def dest: transD)
  from assms c have r: "0 \<le> g_cost (state (map_v (fst st) ! cur)) \<longrightarrow> st1 = st \<or> (st1, st) \<in> rank_rel"
    "0 \<le> g_cost (state (map_v (fst st) ! cur)) \<longrightarrow> st2 = st1 \<or> (st2, st1) \<in> rank_rel"
    by (simp_all add: grows_def)
  have 6: "0 \<le> g_cost (state (map_v (fst st) ! cur)) \<longrightarrow> st2 = st \<or> (st2, st) \<in> rank_rel"
    using r trans_rank_rel by (auto dest: transD)
  from assms have 1: "\<forall>i. visited (map_v (fst st)) i \<longrightarrow> visited (map_v (fst st2)) i"
    and 3: "set (snd st) \<subseteq> set (snd st2)"
    and 4: "\<forall>i. visited (map_v (fst st2)) i \<and> \<not> visited (map_v (fst st)) i \<longrightarrow> i \<in> set (snd st2)"
    and 7: "small_grid m0 \<and> small_inv (map_v (fst st)) s \<longrightarrow> small_inv (map_v (fst st2)) s"
    unfolding grows_def by blast+
  from c 1 3 4 5 6 7 show ?thesis unfolding grows_def by simp
qed

lemma visit_preserves:
  assumes grid: "grid_ok sz m0" and s: "s < length m0"
    and inv: "core_inv sz m0 s st"
    and cur: "cur < length m0" "visited (map_v (fst st)) cur"
    and d: "d < 4"
  shows "core_inv sz m0 s (visit e cur d st)"
    and "grows m0 s cur st (visit e cur d st)"
    and "\<forall>j. neighbour sz m0 cur d j \<longrightarrow> visited (map_v (fst (visit e cur d st))) j"
proof -
  obtain mz pq where st: "st = (mz, pq)" by (cases st)
  from inv st have sz: "size_v mz = sz" and same: "same_grid m0 (map_v mz)"
    and tiles: "\<And>i. i < length m0 \<Longrightarrow> tile_ok sz m0 s (map_v mz) i"
    by (auto simp: core_inv_def)
  from same have static: "\<And>i. i < length m0 \<Longrightarrow> type (map_v mz ! i) = type (m0 ! i) \<and> pos (map_v mz ! i) = pos (m0 ! i)"
    by (auto simp: same_grid_def)
  have pos_cur: "pos (map_v mz ! cur) = pos (m0 ! cur)" using static cur(1) by simp
  from inv cur st have inv': "core_inv sz m0 s (mz, pq)"
    and cur': "visited (map_v mz) cur" by simp_all
  have "core_inv sz m0 s (visit e cur d st) \<and> grows m0 s cur st (visit e cur d st) \<and>
        (\<forall>j. neighbour sz m0 cur d j \<longrightarrow> visited (map_v (fst (visit e cur d st))) j)"
    using visit_cases [of e cur d mz pq]
  proof
    assume a: "visit e cur d (mz, pq) = (mz, pq) \<and>
      (\<forall>n. n = ivec2_add (pos (map_v mz ! cur)) (moves ! d) \<and>
          0 \<le> xc n \<and> xc n < xc (size_v mz) \<and> 0 \<le> yc n \<and> yc n < yc (size_v mz) \<and>
          type (map_v mz ! idx (size_v mz) (xc n) (yc n)) \<noteq> tile_wall \<longrightarrow>
          g_cost (state (map_v mz ! idx (size_v mz) (xc n) (yc n))) \<noteq> 0)"
    have "\<forall>j. neighbour sz m0 cur d j \<longrightarrow> visited (map_v mz) j"
    proof (intro allI impI)
      fix j assume nb: "neighbour sz m0 cur d j"
      let ?n = "ivec2_add (pos (m0 ! cur)) (moves ! d)"
      from nb have b: "0 \<le> xc ?n" "xc ?n < xc sz" "0 \<le> yc ?n" "yc ?n < yc sz"
        and j: "j = idx sz (xc ?n) (yc ?n)" and nw: "type (m0 ! j) \<noteq> tile_wall"
        unfolding neighbour_def by blast+
      from grid b j have jl: "j < length m0" by (auto simp: grid_ok_def)
      with nw static have "type (map_v mz ! j) \<noteq> tile_wall" by simp
      with a b j sz pos_cur have "g_cost (state (map_v mz ! j)) \<noteq> 0" by simp
      with tiles [OF jl] show "visited (map_v mz) j" by (simp add: tile_ok_def)
    qed
    with a inv' st show ?thesis by (simp add: grows_refl)
  next
    assume "\<exists>n nidx g. n = ivec2_add (pos (map_v mz ! cur)) (moves ! d) \<and>
      0 \<le> xc n \<and> xc n < xc (size_v mz) \<and> 0 \<le> yc n \<and> yc n < yc (size_v mz) \<and>
      nidx = idx (size_v mz) (xc n) (yc n) \<and>
      type (map_v mz ! nidx) \<noteq> tile_wall \<and>
      g = add32 (g_cost (state (map_v mz ! cur))) (move_cost (dir (state (map_v mz ! cur))) d) \<and>
      (g_cost (state (map_v mz ! nidx)) = 0 \<or> g < g_cost (state (map_v mz ! nidx))) \<and>
      visit e cur d (mz, pq) =
        (mz\<lparr>map_v := relax e cur nidx d g (map_v mz), search_count := add32 (search_count mz) 1\<rparr>,
         pq_push (relax e cur nidx d g (map_v mz)) nidx pq)"
    then obtain n nidx g where
      n: "n = ivec2_add (pos (map_v mz ! cur)) (moves ! d)"
      and b: "0 \<le> xc n" "xc n < xc sz" "0 \<le> yc n" "yc n < yc sz"
      and nidx: "nidx = idx sz (xc n) (yc n)"
      and nowall: "type (map_v mz ! nidx) \<noteq> tile_wall"
      and g: "g = add32 (g_cost (state (map_v mz ! cur))) (move_cost (dir (state (map_v mz ! cur))) d)"
      and better: "g_cost (state (map_v mz ! nidx)) = 0 \<or> g < g_cost (state (map_v mz ! nidx))"
      and v: "visit e cur d (mz, pq) =
        (mz\<lparr>map_v := relax e cur nidx d g (map_v mz), search_count := add32 (search_count mz) 1\<rparr>,
         pq_push (relax e cur nidx d g (map_v mz)) nidx pq)"
      unfolding sz by blast
    define mz' where "mz' = mz\<lparr>map_v := relax e cur nidx d g (map_v mz), search_count := add32 (search_count mz) 1\<rparr>"
    define pq' where "pq' = pq_push (map_v mz') nidx pq"
    have v': "visit e cur d (mz, pq) = (mz', pq')" unfolding v mz'_def pq'_def by simp
    note r = relax_preserves [OF grid s inv' cur(1) cur' d n b nidx nowall g better mz'_def pq'_def]
    have mono: "\<forall>i. visited (map_v mz) i \<longrightarrow> visited (map_v mz') i"
    proof (intro allI impI)
      fix i assume "visited (map_v mz) i"
      then show "visited (map_v mz') i" using r(3,4) by (cases "i = nidx") (simp_all add: visited_def)
    qed
    have new: "\<forall>i. visited (map_v mz') i \<and> \<not> visited (map_v mz) i \<longrightarrow> i \<in> set pq'"
    proof (intro allI impI)
      fix i assume a: "visited (map_v mz') i \<and> \<not> visited (map_v mz) i"
      then have "i = nidx" using r(3) by (cases "i = nidx") (simp_all add: visited_def)
      then show "i \<in> set pq'" using r(5) by simp
    qed
    have same_cur: "state (map_v mz' ! cur) = state (map_v mz ! cur)" using r(2,3) by simp
    have rk: "0 \<le> g_cost (state (map_v mz ! cur)) \<longrightarrow> (mz', pq') = (mz, pq) \<or> ((mz', pq'), (mz, pq)) \<in> rank_rel"
      using r(7) by blast
    have gr: "grows m0 s cur (mz, pq) (mz', pq')"
      unfolding grows_def fst_conv snd_conv
      using same_cur mono r(5) new r(6) rk r(8) by blast
    have "\<forall>j. neighbour sz m0 cur d j \<longrightarrow> visited (map_v mz') j"
    proof (intro allI impI)
      fix j assume "neighbour sz m0 cur d j"
      then have "j = nidx" using n nidx pos_cur by (simp add: neighbour_def)
      with r(4) show "visited (map_v mz') j" by simp
    qed
    with r(1) gr show ?thesis unfolding st v' by simp
  qed
  then show "core_inv sz m0 s (visit e cur d st)"
    and "grows m0 s cur st (visit e cur d st)"
    and "\<forall>j. neighbour sz m0 cur d j \<longrightarrow> visited (map_v (fst (visit e cur d st))) j"
    by simp_all
qed

lemma explore_preserves:
  assumes grid: "grid_ok sz m0" and s: "s < length m0"
    and inv: "core_inv sz m0 s st"
    and cur: "cur < length m0" "visited (map_v (fst st)) cur"
  shows "core_inv sz m0 s (explore e cur st)"
    and "grows m0 s cur st (explore e cur st)"
    and "\<forall>j. (cur, j) \<in> edges sz m0 \<longrightarrow> visited (map_v (fst (explore e cur st))) j"
proof -
  let ?v = "\<lambda>d. visit e cur d"
  let ?P = "\<lambda>st'. core_inv sz m0 s st' \<and> grows m0 s cur st st'"
  let ?N = "\<lambda>d st'. \<forall>j. neighbour sz m0 cur d j \<longrightarrow> visited (map_v (fst st')) j"
  have step: "\<And>st' d. ?P st' \<Longrightarrow> d < 4 \<Longrightarrow> ?P (?v d st') \<and> ?N d (?v d st')"
  proof -
    fix st' :: "maze_t \<times> nat list" and d :: nat
    assume P: "?P st'" and d: "d < 4"
    then have "visited (map_v (fst st')) cur" using cur(2) by (simp add: grows_def)
    note v = visit_preserves [OF grid s _ cur(1) this d, of e]
    from P v(1) have 1: "core_inv sz m0 s (?v d st')" by simp
    from P v(2) have "grows m0 s cur st' (?v d st')" by simp
    with P have 2: "grows m0 s cur st (?v d st')" by (blast intro: grows_trans)
    from P v(3) have 3: "?N d (?v d st')" by simp
    from 1 2 3 show "?P (?v d st') \<and> ?N d (?v d st')" by simp
  qed
  have keep: "\<And>st' d d'. ?P st' \<Longrightarrow> ?N d' st' \<Longrightarrow> d < 4 \<Longrightarrow> ?N d' (?v d st')"
  proof -
    fix st' :: "maze_t \<times> nat list" and d d' :: nat
    assume P: "?P st'" and N: "?N d' st'" and d: "d < 4"
    then have "visited (map_v (fst st')) cur" using cur(2) by (simp add: grows_def)
    from visit_preserves(2) [OF grid s _ cur(1) this d, of e] P
    have "grows m0 s cur st' (?v d st')" by simp
    then have "\<forall>i. visited (map_v (fst st')) i \<longrightarrow> visited (map_v (fst (?v d st'))) i"
      by (simp add: grows_def)
    with N show "?N d' (?v d st')" by blast
  qed
  let ?s0 = "?v 0 st" let ?s1 = "?v 1 ?s0" let ?s2 = "?v 2 ?s1" let ?s3 = "?v 3 ?s2"
  have P: "?P st" using inv by (simp add: grows_refl)
  from step [OF P, of 0] have P0: "?P ?s0" and N00: "?N 0 ?s0" by simp_all
  from step [OF P0, of 1] have P1: "?P ?s1" and N11: "?N 1 ?s1" by simp_all
  from step [OF P1, of 2] have P2: "?P ?s2" and N22: "?N 2 ?s2" by simp_all
  from step [OF P2, of 3] have P3: "?P ?s3" and N33: "?N 3 ?s3" by simp_all
  from keep [OF P0 N00, of 1] have N01: "?N 0 ?s1" by simp
  from keep [OF P1 N01, of 2] have N02: "?N 0 ?s2" by simp
  from keep [OF P2 N02, of 3] have N03: "?N 0 ?s3" by simp
  from keep [OF P1 N11, of 2] have N12: "?N 1 ?s2" by simp
  from keep [OF P2 N12, of 3] have N13: "?N 1 ?s3" by simp
  from keep [OF P2 N22, of 3] have N23: "?N 2 ?s3" by simp
  have ex: "explore e cur st = ?s3" by (simp add: explore_def)
  from P3 show "core_inv sz m0 s (explore e cur st)" and "grows m0 s cur st (explore e cur st)"
    unfolding ex by simp_all
  show "\<forall>j. (cur, j) \<in> edges sz m0 \<longrightarrow> visited (map_v (fst (explore e cur st))) j"
  proof (intro allI impI)
    fix j assume "(cur, j) \<in> edges sz m0"
    then obtain d where d: "d < 4" and nb: "neighbour sz m0 cur d j" unfolding edges_neighbour by blast
    from d have "d = 0 \<or> d = 1 \<or> d = 2 \<or> d = 3" by arith
    with nb N03 N13 N23 N33 show "visited (map_v (fst (explore e cur st))) j" unfolding ex by blast
  qed
qed

lemma closed_reach:
  assumes "(s, j) \<in> (edges sz m0)\<^sup>*" and "visited m s" and "s < length m0"
    and "\<forall>i < length m0. visited m i \<longrightarrow> (\<forall>j. (i, j) \<in> edges sz m0 \<longrightarrow> visited m j)"
  shows "visited m j"
  using assms(1)
proof (induction rule: rtrancl_induct)
  case base
  show ?case by (rule assms(2))
next
  case (step y z)
  from step(2) have "y < length m0" by (simp add: edges_def)
  with step assms(4) show ?case by blast
qed

lemma search_loop_terminates:
  assumes grid: "grid_ok sz m0" and s: "s < length m0"
    and inv: "search_inv sz m0 s e (mz, pq)"
  shows "\<exists>mz'. search_loop e mz pq = Some mz' \<and> search_post sz m0 s e mz' \<and>
           (small_grid m0 \<and> small_inv (map_v mz) s \<longrightarrow> small_inv (map_v mz') s)"
  using wf_rank_rel inv
proof (induction "(mz, pq)" arbitrary: mz pq rule: wf_induct_rule)
  case less
  note inv = less.prems
  from inv have core: "core_inv sz m0 s (mz, pq)" and closed: "closed_but {} sz m0 (mz, pq)"
    and fin: "visited (map_v mz) e \<longrightarrow> e \<in> set pq"
    by (simp_all add: search_inv_def)
  from core have tiles: "\<forall>i < length m0. tile_ok sz m0 s (map_v mz) i"
    and szv: "size_v mz = sz" and same: "same_grid m0 (map_v mz)" and pc: "path_cost mz = - 1"
    and vs: "visited (map_v mz) s"
    and entries: "\<forall>i \<in> set pq. i < length m0 \<and> visited (map_v mz) i"
    by (auto simp: core_inv_def)
  show ?case
  proof (cases "pq = []")
    case True
    then have "search_loop e mz pq = Some mz" by (subst search_loop.simps) simp
    moreover have "(s, e) \<notin> (edges sz m0)\<^sup>*"
    proof
      assume r: "(s, e) \<in> (edges sz m0)\<^sup>*"
      from closed True
      have "\<forall>i < length m0. visited (map_v mz) i \<longrightarrow> (\<forall>j. (i, j) \<in> edges sz m0 \<longrightarrow> visited (map_v mz) j)"
        by (simp add: closed_but_def)
      from closed_reach [OF r vs s this] fin True show False by simp
    qed
    then have "search_post sz m0 s e mz"
      unfolding search_post_def using szv same tiles pc by simp
    ultimately show ?thesis by blast
  next
    case False
    let ?cur = "pq_top pq"
    let ?pq1 = "pq_pop (map_v mz) pq"
    from False have cur_in: "?cur \<in> set pq" by (rule pq_top_in)
    with entries have cur: "?cur < length m0" "visited (map_v mz) ?cur" by simp_all
    show ?thesis
    proof (cases "?cur = e")
      case True
      then have "search_loop e mz pq = Some (mz\<lparr>path_cost := g_cost (state (map_v mz ! ?cur))\<rparr>)"
        using False by (subst search_loop.simps) (simp add: Let_def)
      moreover have "search_post sz m0 s e (mz\<lparr>path_cost := g_cost (state (map_v mz ! ?cur))\<rparr>)"
        unfolding search_post_def using szv same tiles cur True by simp
      ultimately show ?thesis by simp
    next
      case ne: False
      note sub = pq_pop_subset [OF False, of "map_v mz"]
      note pset = pq_pop_set [OF False, of "map_v mz"]
      have core1: "core_inv sz m0 s (mz, ?pq1)"
        using core sub by (auto simp: core_inv_def)
      have closed1: "closed_but {?cur} sz m0 (mz, ?pq1)"
        using closed pset by (auto simp: closed_but_def)
      have fin1: "visited (map_v mz) e \<longrightarrow> e \<in> set ?pq1"
        using fin pset ne by auto
      have nq1: "nq (map_v mz) pq = (if g_cost (state (map_v mz ! ?cur)) < 0 then 1 else 0) + nq (map_v mz) ?pq1"
        using pq_pop_mset [OF False, of "map_v mz"] by (intro nq_add) simp
      obtain mz2 pq2 where ex: "explore e ?cur (mz, ?pq1) = (mz2, pq2)"
        by (cases "explore e ?cur (mz, ?pq1)")
      note ep = explore_preserves [OF grid s core1, of ?cur e, unfolded fst_conv, OF cur, unfolded ex fst_conv]
      from ep(2) have g: "state (map_v mz2 ! ?cur) = state (map_v mz ! ?cur)"
        and mono: "\<forall>i. visited (map_v mz) i \<longrightarrow> visited (map_v mz2) i"
        and sub2: "set ?pq1 \<subseteq> set pq2"
        and new: "\<forall>i. visited (map_v mz2) i \<and> \<not> visited (map_v mz) i \<longrightarrow> i \<in> set pq2"
        and r2: "rank2 (mz2, pq2) = rank2 (mz, ?pq1) \<or> ((mz2, pq2), (mz, ?pq1)) \<in> rank2_rel"
        and r5: "0 \<le> g_cost (state (map_v mz ! ?cur)) \<longrightarrow> (mz2, pq2) = (mz, ?pq1) \<or> ((mz2, pq2), (mz, ?pq1)) \<in> rank_rel"
        and sm: "small_grid m0 \<and> small_inv (map_v mz) s \<longrightarrow> small_inv (map_v mz2) s"
        by (simp_all add: grows_def)
      have rank: "((mz2, pq2), (mz, pq)) \<in> rank_rel"
      proof (cases "g_cost (state (map_v mz ! ?cur)) < 0")
        case True
        with nq1 have "((mz, ?pq1), (mz, pq)) \<in> rank2_rel"
          by (simp add: rank2_rel_def rank2_def)
        with r2 have "((mz2, pq2), (mz, pq)) \<in> rank2_rel"
          using trans_rank2_rel by (auto intro: rank2_rel_eq dest: transD)
        then show ?thesis by (rule rank2_rel_rank_rel)
      next
        case nonneg: False
        with nq1 have "nq (map_v mz) ?pq1 = nq (map_v mz) pq" by simp
        moreover have "length ?pq1 < length pq" using pq_pop_length [OF False, of "map_v mz"] by simp
        ultimately have "((mz, ?pq1), (mz, pq)) \<in> rank_rel"
          by (simp add: rank_rel_def rank2_def)
        with r5 nonneg show ?thesis using trans_rank_rel by (auto dest: transD)
      qed
      have closed2: "closed_but {} sz m0 (mz2, pq2)"
        unfolding closed_but_def
      proof (clarsimp)
        fix i j assume i: "i < length m0" "visited (map_v mz2) i" "i \<notin> set pq2" and ij: "(i, j) \<in> edges sz m0"
        show "visited (map_v mz2) j"
        proof (cases "i = ?cur")
          case True
          with ep(3) ij show ?thesis by simp
        next
          case nc: False
          from i(2,3) new have "visited (map_v mz) i" by blast
          moreover from i(3) sub2 have "i \<notin> set ?pq1" by blast
          ultimately have "visited (map_v mz) j" using closed1 i(1) nc ij by (auto simp: closed_but_def)
          with mono show ?thesis by simp
        qed
      qed
      have fin2: "visited (map_v mz2) e \<longrightarrow> e \<in> set pq2"
        using fin1 new sub2 by blast
      have inv2: "search_inv sz m0 s e (mz2, pq2)"
        unfolding search_inv_def using ep(1) closed2 fin2 by simp
      from less.hyps [OF rank inv2]
      obtain mz' where res: "search_loop e mz2 pq2 = Some mz'" and post: "search_post sz m0 s e mz'"
        and sm': "small_grid m0 \<and> small_inv (map_v mz2) s \<longrightarrow> small_inv (map_v mz') s"
        by blast
      have "search_loop e mz pq = search_loop e mz2 pq2"
        using False ne ex by (subst search_loop.simps) (simp add: Let_def)
      with res post sm sm' show ?thesis by simp
    qed
  qed
qed

subsection \<open>The walk along the parents\<close>



text \<open>On a small grid the costs fall strictly along the parents, and the walk ends.\<close>

lemma mark_path_terminates:
  assumes "\<forall>i < length m. parent_ok m s i" and "c < length m" and "c \<noteq> s"
    and "0 < g_cost (state (m ! c))"
  shows "\<exists>m'. mark_path s m c = Some m'"
  using assms
proof (induction "nat (g_cost (state (m ! c)))" arbitrary: m c rule: less_induct)
  case less
  let ?t = "m ! c"
  let ?m1 = "m[c := ?t\<lparr>state := (state ?t)\<lparr>dir := dir (state ?t) OR dir_path\<rparr>\<rparr>]"
  have c: "c < length m" by (rule less.prems(2))
  have g1: "\<And>i. g_cost (state (?m1 ! i)) = g_cost (state (m ! i))"
    using c by (simp add: nth_list_update)
  have p1: "\<And>i. p_idx (state (?m1 ! i)) = p_idx (state (m ! i))"
    using c by (simp add: nth_list_update)
  have par1: "\<And>i. parent_ok ?m1 s i = parent_ok m s i"
    unfolding parent_ok_def g1 p1 by simp
  have inv1: "\<forall>i < length ?m1. parent_ok ?m1 s i" using less.prems(1) par1 by simp
  let ?next = "p_idx (state (?m1 ! c))"
  from less.prems(1) c less.prems(3,4)
  have nx: "p_idx (state (m ! c)) < length m \<and>
        (p_idx (state (m ! c)) = s \<or>
         (0 < g_cost (state (m ! p_idx (state (m ! c)))) \<and>
          g_cost (state (m ! p_idx (state (m ! c)))) < g_cost (state (m ! c))))"
    by (simp add: parent_ok_def)
  show ?case
  proof (cases "?next = s")
    case True
    then have "mark_path s m c = Some ?m1"
      by (subst mark_path.simps) (simp add: Let_def)
    then show ?thesis by blast
  next
    case False
    with nx p1 have n1: "?next < length ?m1" "0 < g_cost (state (?m1 ! ?next))"
      and n2: "nat (g_cost (state (?m1 ! ?next))) < nat (g_cost (state (m ! c)))"
      using g1 by auto
    from less.hyps [OF n2 inv1 n1(1) False n1(2)]
    obtain m' where "mark_path s ?m1 ?next = Some m'" by blast
    moreover have "mark_path s m c = mark_path s ?m1 ?next"
      using False by (subst mark_path.simps) (simp add: Let_def)
    ultimately show ?thesis by simp
  qed
qed



subsection \<open>The scan for the start and the end tile\<close>

lemma locate_reset: "locate (map reset_tile ts) i se = locate ts i se"
  by (induction ts arbitrary: i se) (simp_all add: reset_tile_def)

lemma locate_fst_none:
  "\<forall>t \<in> set ts. type t \<noteq> tile_start \<Longrightarrow> fst (locate ts i se) = fst se"
  by (induction ts arbitrary: i se) simp_all

lemma locate_snd_none:
  "\<forall>t \<in> set ts. type t \<noteq> tile_end \<Longrightarrow> snd (locate ts i se) = snd se"
  by (induction ts arbitrary: i se) simp_all

lemma locate_fst_last:
  "\<exists>t \<in> set ts. type t = tile_start \<Longrightarrow>
   \<exists>k < length ts. fst (locate ts i se) = int (i + k) \<and> type (ts ! k) = tile_start \<and>
     (\<forall>j < length ts. k < j \<longrightarrow> type (ts ! j) \<noteq> tile_start)"
proof (induction ts arbitrary: i se)
  case Nil
  then show ?case by simp
next
  case (Cons t ts)
  show ?case
  proof (cases "\<exists>t \<in> set ts. type t = tile_start")
    case True
    from Cons.IH [OF True, of "Suc i"
        "(if type t = tile_start then int i else fst se, if type t = tile_end then int i else snd se)"]
    obtain k where k: "k < length ts"
      "fst (locate (t # ts) i se) = int (Suc i + k)" "type (ts ! k) = tile_start"
      "\<forall>j < length ts. k < j \<longrightarrow> type (ts ! j) \<noteq> tile_start"
      by auto
    have "\<forall>j < length (t # ts). Suc k < j \<longrightarrow> type ((t # ts) ! j) \<noteq> tile_start"
    proof (intro allI impI)
      fix j assume "j < length (t # ts)" "Suc k < j"
      then obtain j' where "j = Suc j'" "j' < length ts" "k < j'" by (cases j) auto
      with k(4) show "type ((t # ts) ! j) \<noteq> tile_start" by simp
    qed
    with k show ?thesis by (intro exI [of _ "Suc k"]) simp
  next
    case False
    with Cons.prems have t: "type t = tile_start" by auto
    from False have "fst (locate (t # ts) i se) = int i"
      using t by (simp add: locate_fst_none)
    moreover have "\<forall>j < length (t # ts). 0 < j \<longrightarrow> type ((t # ts) ! j) \<noteq> tile_start"
    proof (intro allI impI)
      fix j assume "j < length (t # ts)" "0 < j"
      then obtain j' where "j = Suc j'" "j' < length ts" by (cases j) auto
      with False show "type ((t # ts) ! j) \<noteq> tile_start" by auto
    qed
    ultimately show ?thesis using t by (intro exI [of _ 0]) simp
  qed
qed

lemma locate_snd_last:
  "\<exists>t \<in> set ts. type t = tile_end \<Longrightarrow>
   \<exists>k < length ts. snd (locate ts i se) = int (i + k) \<and> type (ts ! k) = tile_end \<and>
     (\<forall>j < length ts. k < j \<longrightarrow> type (ts ! j) \<noteq> tile_end)"
proof (induction ts arbitrary: i se)
  case Nil
  then show ?case by simp
next
  case (Cons t ts)
  show ?case
  proof (cases "\<exists>t \<in> set ts. type t = tile_end")
    case True
    from Cons.IH [OF True, of "Suc i"
        "(if type t = tile_start then int i else fst se, if type t = tile_end then int i else snd se)"]
    obtain k where k: "k < length ts"
      "snd (locate (t # ts) i se) = int (Suc i + k)" "type (ts ! k) = tile_end"
      "\<forall>j < length ts. k < j \<longrightarrow> type (ts ! j) \<noteq> tile_end"
      by auto
    have "\<forall>j < length (t # ts). Suc k < j \<longrightarrow> type ((t # ts) ! j) \<noteq> tile_end"
    proof (intro allI impI)
      fix j assume "j < length (t # ts)" "Suc k < j"
      then obtain j' where "j = Suc j'" "j' < length ts" "k < j'" by (cases j) auto
      with k(4) show "type ((t # ts) ! j) \<noteq> tile_end" by simp
    qed
    with k show ?thesis by (intro exI [of _ "Suc k"]) simp
  next
    case False
    with Cons.prems have t: "type t = tile_end" by auto
    from False have "snd (locate (t # ts) i se) = int i"
      using t by (simp add: locate_snd_none)
    moreover have "\<forall>j < length (t # ts). 0 < j \<longrightarrow> type ((t # ts) ! j) \<noteq> tile_end"
    proof (intro allI impI)
      fix j assume "j < length (t # ts)" "0 < j"
      then obtain j' where "j = Suc j'" "j' < length ts" by (cases j) auto
      with False show "type ((t # ts) ! j) \<noteq> tile_end" by auto
    qed
    ultimately show ?thesis using t by (intro exI [of _ 0]) simp
  qed
qed

subsection \<open>\<open>solve\<close> as a whole\<close>

lemma locate_start:
  assumes "fst (locate m 0 (- 1, - 1)) \<noteq> - 1"
  shows "nat (fst (locate m 0 (- 1, - 1))) < length m \<and>
         type (m ! nat (fst (locate m 0 (- 1, - 1)))) = tile_start"
proof -
  from assms locate_fst_none [of m 0 "(- 1, - 1)"]
  have "\<exists>t \<in> set m. type t = tile_start" by auto
  from locate_fst_last [OF this, of 0 "(- 1, - 1)"] show ?thesis by auto
qed

lemma locate_end:
  assumes "snd (locate m 0 (- 1, - 1)) \<noteq> - 1"
  shows "nat (snd (locate m 0 (- 1, - 1))) < length m \<and>
         type (m ! nat (snd (locate m 0 (- 1, - 1)))) = tile_end"
proof -
  from assms locate_snd_none [of m 0 "(- 1, - 1)"]
  have "\<exists>t \<in> set m. type t = tile_end" by auto
  from locate_snd_last [OF this, of 0 "(- 1, - 1)"] show ?thesis by auto
qed

lemma solve_no_marker:
  assumes "fst (locate (map_v mz0) 0 (- 1, - 1)) = - 1 \<or> snd (locate (map_v mz0) 0 (- 1, - 1)) = - 1"
  shows "solve elapsed mz0 = Some (Inl config_error)"
  using assms by (simp add: solve_def Let_def locate_reset config_error_def)

text \<open>With a start and an end tile, \<open>solve\<close> is the search, which ends, followed by the
  report or the walk.\<close>

lemma solve_search:
  assumes grid: "grid_ok (size_v mz0) (map_v mz0)"
    and si: "fst (locate (map_v mz0) 0 (- 1, - 1)) \<noteq> - 1"
    and ei: "snd (locate (map_v mz0) 0 (- 1, - 1)) \<noteq> - 1"
    and s: "s = nat (fst (locate (map_v mz0) 0 (- 1, - 1)))"
    and e: "e = nat (snd (locate (map_v mz0) 0 (- 1, - 1)))"
  shows "\<exists>mz1. search_of mz0 = Some mz1 \<and>
           search_post (size_v mz0) (map_v mz0) s e mz1 \<and>
           (small_grid (map_v mz0) \<longrightarrow> small_inv (map_v mz1) s) \<and>
           solve elapsed mz0 =
             (if path_cost mz1 = - 1 then Some (Inr (mz1\<lparr>solve_time := elapsed\<rparr>, no_path_msg))
              else (case mark_path s (map_v mz1) e of
                      None \<Rightarrow> None
                    | Some m \<Rightarrow> Some (Inr (mz1\<lparr>solve_time := elapsed, map_v := m\<rparr>, []))))"
proof -
  let ?m0 = "map_v mz0" and ?sz = "size_v mz0"
  define m1 where "m1 = (map reset_tile ?m0)[s := (map reset_tile ?m0 ! s)\<lparr>state :=
      (state (map reset_tile ?m0 ! s))\<lparr>dir := dir_e\<rparr>\<rparr>]"
  define mz1 where "mz1 = mz0\<lparr>solve_time := 0, search_count := 1, path_cost := - 1, map_v := m1\<rparr>"
  define pq where "pq = pq_push m1 s []"
  from locate_start [OF si] s have sl: "s < length ?m0" and ts: "type (?m0 ! s) = tile_start" by simp_all
  from locate_end [OF ei] e have el: "e < length ?m0" and te: "type (?m0 ! e) = tile_end" by simp_all
  from ts te have ne: "e \<noteq> s" by auto
  have len1: "length m1 = length ?m0" by (simp add: m1_def)
  have st1: "\<And>i. i < length ?m0 \<Longrightarrow> type (m1 ! i) = type (?m0 ! i) \<and> pos (m1 ! i) = pos (?m0 ! i)
      \<and> g_cost (state (m1 ! i)) = 0
      \<and> dir (state (m1 ! i)) = (if i = s then dir_e else dir_none)"
    by (simp add: m1_def nth_list_update reset_tile_def reset_def)
  have pe: "plain_dir dir_e" by (simp add: plain_dir_def)
  have pn: "\<not> plain_dir dir_none" using plain_not_none by blast
  have vis: "\<And>i. i < length ?m0 \<Longrightarrow> visited m1 i \<longleftrightarrow> i = s"
    using st1 pe pn by (simp add: visited_def)
  have pq: "set pq = {s}" by (simp add: pq_def pq_push_set)
  have mz1: "size_v mz1 = ?sz" "path_cost mz1 = - 1" "map_v mz1 = m1" by (simp_all add: mz1_def)
  have same: "same_grid ?m0 m1" unfolding same_grid_def using len1 st1 by simp
  have tiles: "\<And>i. i < length ?m0 \<Longrightarrow> tile_ok ?sz ?m0 s m1 i"
  proof -
    fix i assume i: "i < length ?m0"
    from st1 [OF i] have g: "g_cost (state (m1 ! i)) = 0"
      and dn: "dir (state (m1 ! i)) = dir_none \<or> visited m1 i"
      using pe by (auto simp: visited_def)
    show "tile_ok ?sz ?m0 s m1 i"
      unfolding tile_ok_def g using dn vis [OF i] ts by (simp add: int32_def)
  qed
  have core: "core_inv ?sz ?m0 s (mz1, pq)"
    unfolding core_inv_def prod.case mz1 pq using same vis [OF sl] sl tiles by simp
  have closed: "closed_but {} ?sz ?m0 (mz1, pq)"
    unfolding closed_but_def prod.case mz1 pq using vis by simp
  have inv: "search_inv ?sz ?m0 s e (mz1, pq)"
    unfolding search_inv_def fst_conv snd_conv mz1 using core closed vis [OF el] ne by simp
  have sm0: "small_inv m1 s"
    unfolding small_inv_def
  proof (intro allI impI)
    fix i assume "i < length m1"
    then have i: "i < length ?m0" using len1 by simp
    from st1 [OF i] have g: "g_cost (state (m1 ! i)) = 0" by simp
    show "cost_ok m1 s i"
      unfolding cost_ok_def parent_ok_def g using vis [OF i] by simp
  qed
  from search_loop_terminates [OF grid sl inv]
  obtain mz' where loop: "search_loop e mz1 pq = Some mz'" and post: "search_post ?sz ?m0 s e mz'"
    and sm: "small_grid ?m0 \<and> small_inv (map_v mz1) s \<longrightarrow> small_inv (map_v mz') s"
    by blast
  from sm sm0 mz1(3) have 2: "small_grid ?m0 \<longrightarrow> small_inv (map_v mz') s" by simp
  note loop' = loop [unfolded mz1_def pq_def m1_def]
  have 3: "solve elapsed mz0 =
      (if path_cost mz' = - 1 then Some (Inr (mz'\<lparr>solve_time := elapsed\<rparr>, no_path_msg))
       else (case mark_path s (map_v mz') e of
               None \<Rightarrow> None
             | Some m \<Rightarrow> Some (Inr (mz'\<lparr>solve_time := elapsed, map_v := m\<rparr>, []))))"
    using si ei loop' unfolding s e by (simp add: solve_def Let_def locate_reset)
  have 4: "search_of mz0 = Some mz'"
    using loop' unfolding s e by (simp add: search_of_def Let_def locate_reset)
  from post 2 3 4 show ?thesis by blast
qed

lemma tiles_walk_inv:
  assumes "same_grid m0 m" and "\<forall>i < length m0. tile_ok sz m0 s m i"
  shows "walk_inv m0 s m" and "unmarked m"
proof -
  show "walk_inv m0 s m"
    unfolding walk_inv_def using assms plain_not_none
    by (auto simp: tile_ok_def visited_def)
  show "unmarked m"
    unfolding unmarked_def
  proof
    fix t assume "t \<in> set m"
    then obtain i where "i < length m" "t = m ! i" by (auto simp: in_set_conv_nth)
    with assms show "dir (state t) = dir_none \<or> plain_dir (dir (state t))"
      by (simp add: tile_ok_def same_grid_def visited_def)
  qed
qed

text \<open>No chain of moves from the start to the end: the report, on a grid of any size.\<close>

lemma solve_unreachable:
  assumes grid: "grid_ok (size_v mz0) (map_v mz0)"
    and si: "fst (locate (map_v mz0) 0 (- 1, - 1)) \<noteq> - 1"
    and ei: "snd (locate (map_v mz0) 0 (- 1, - 1)) \<noteq> - 1"
    and un: "(nat (fst (locate (map_v mz0) 0 (- 1, - 1))), nat (snd (locate (map_v mz0) 0 (- 1, - 1))))
               \<notin> (edges (size_v mz0) (map_v mz0))\<^sup>*"
  shows "\<exists>mz. solve elapsed mz0 = Some (Inr (mz, no_path_msg)) \<and> size_v mz = size_v mz0 \<and>
           solve_time mz = elapsed \<and> path_cost mz = - 1 \<and> same_grid (map_v mz0) (map_v mz) \<and>
           unmarked (map_v mz)"
proof -
  let ?s = "nat (fst (locate (map_v mz0) 0 (- 1, - 1)))" and ?e = "nat (snd (locate (map_v mz0) 0 (- 1, - 1)))"
  from solve_search [OF grid si ei refl refl, of elapsed]
  obtain mz1 where post: "search_post (size_v mz0) (map_v mz0) ?s ?e mz1"
    and sol: "solve elapsed mz0 =
             (if path_cost mz1 = - 1 then Some (Inr (mz1\<lparr>solve_time := elapsed\<rparr>, no_path_msg))
              else (case mark_path ?s (map_v mz1) ?e of
                      None \<Rightarrow> None
                    | Some m \<Rightarrow> Some (Inr (mz1\<lparr>solve_time := elapsed, map_v := m\<rparr>, []))))"
    by blast
  from locate_end [OF ei] have el: "?e < length (map_v mz0)" by simp
  from post have sz: "size_v mz1 = size_v mz0" and same: "same_grid (map_v mz0) (map_v mz1)"
    and tiles: "\<forall>i < length (map_v mz0). tile_ok (size_v mz0) (map_v mz0) ?s (map_v mz1) i"
    and pc: "(path_cost mz1 = - 1 \<and> (?s, ?e) \<notin> (edges (size_v mz0) (map_v mz0))\<^sup>*) \<or>
      (path_cost mz1 = g_cost (state (map_v mz1 ! ?e)) \<and> visited (map_v mz1) ?e)"
    by (simp_all add: search_post_def)
  have "\<not> visited (map_v mz1) ?e" using tiles el un by (auto simp: tile_ok_def)
  with pc have p: "path_cost mz1 = - 1" by blast
  with sol have "solve elapsed mz0 = Some (Inr (mz1\<lparr>solve_time := elapsed\<rparr>, no_path_msg))" by simp
  with sz same p tiles_walk_inv(2) [OF same tiles] show ?thesis by simp
qed

text \<open>On a small grid \<open>solve\<close> returns, and with a path when there is a chain of moves from the
  start to the end.\<close>

lemma solve_small:
  assumes grid: "grid_ok (size_v mz0) (map_v mz0)"
    and si: "fst (locate (map_v mz0) 0 (- 1, - 1)) \<noteq> - 1"
    and ei: "snd (locate (map_v mz0) 0 (- 1, - 1)) \<noteq> - 1"
    and small: "small_grid (map_v mz0)"
  shows "\<exists>mz err. solve elapsed mz0 = Some (Inr (mz, err)) \<and>
           ((nat (fst (locate (map_v mz0) 0 (- 1, - 1))), nat (snd (locate (map_v mz0) 0 (- 1, - 1))))
               \<in> (edges (size_v mz0) (map_v mz0))\<^sup>* \<longrightarrow> err = [] \<and> 0 < path_cost mz)"
proof -
  let ?s = "nat (fst (locate (map_v mz0) 0 (- 1, - 1)))" and ?e = "nat (snd (locate (map_v mz0) 0 (- 1, - 1)))"
  from solve_search [OF grid si ei refl refl, of elapsed] small
  obtain mz1 where post: "search_post (size_v mz0) (map_v mz0) ?s ?e mz1"
    and sm: "small_inv (map_v mz1) ?s"
    and sol: "solve elapsed mz0 =
             (if path_cost mz1 = - 1 then Some (Inr (mz1\<lparr>solve_time := elapsed\<rparr>, no_path_msg))
              else (case mark_path ?s (map_v mz1) ?e of
                      None \<Rightarrow> None
                    | Some m \<Rightarrow> Some (Inr (mz1\<lparr>solve_time := elapsed, map_v := m\<rparr>, []))))"
    by blast
  from locate_start [OF si] have ts: "type (map_v mz0 ! ?s) = tile_start" by simp
  from locate_end [OF ei] have el: "?e < length (map_v mz0)" and te: "type (map_v mz0 ! ?e) = tile_end"
    by simp_all
  from ts te have ne: "?e \<noteq> ?s" by auto
  from post have same: "same_grid (map_v mz0) (map_v mz1)"
    and pc: "(path_cost mz1 = - 1 \<and> (?s, ?e) \<notin> (edges (size_v mz0) (map_v mz0))\<^sup>*) \<or>
      (path_cost mz1 = g_cost (state (map_v mz1 ! ?e)) \<and> visited (map_v mz1) ?e)"
    by (simp_all add: search_post_def)
  from same have len: "length (map_v mz1) = length (map_v mz0)" by (simp add: same_grid_def)
  from sm have costs: "\<And>i. i < length (map_v mz1) \<Longrightarrow> cost_ok (map_v mz1) ?s i"
    by (simp add: small_inv_def)
  from costs [of ?e] el len have ge: "0 \<le> g_cost (state (map_v mz1 ! ?e))"
    "visited (map_v mz1) ?e \<longrightarrow> 0 < g_cost (state (map_v mz1 ! ?e))"
    using ne by (simp_all add: cost_ok_def)
  show ?thesis
  proof (cases "path_cost mz1 = - 1")
    case True
    with pc ge have "(?s, ?e) \<notin> (edges (size_v mz0) (map_v mz0))\<^sup>*" by auto
    with True sol show ?thesis by simp
  next
    case False
    with pc ge have gp: "0 < g_cost (state (map_v mz1 ! ?e))" and p: "path_cost mz1 = g_cost (state (map_v mz1 ! ?e))"
      by auto
    have par: "\<forall>i < length (map_v mz1). parent_ok (map_v mz1) ?s i"
      using costs by (simp add: cost_ok_def)
    from el len have "?e < length (map_v mz1)" by simp
    from mark_path_terminates [OF par this ne gp]
    obtain m' where "mark_path ?s (map_v mz1) ?e = Some m'" by blast
    with False sol gp p show ?thesis by simp
  qed
qed


lemma solve_elapsed:
  "solve elapsed mz0 =
     map_option (map_sum id (\<lambda>r. ((fst r)\<lparr>solve_time := elapsed\<rparr>, snd r))) (solve 0 mz0)"
  by (auto simp: solve_def Let_def split: option.splits)

lemma solve_returns_small:
  assumes "grid_ok (size_v mz) (map_v mz)" and "small_grid (map_v mz)"
  shows "\<exists>r. solve elapsed mz = Some r"
proof (cases "fst (locate (map_v mz) 0 (- 1, - 1)) = - 1 \<or> snd (locate (map_v mz) 0 (- 1, - 1)) = - 1")
  case True
  from solve_no_marker [OF this] show ?thesis by blast
next
  case False
  then have "fst (locate (map_v mz) 0 (- 1, - 1)) \<noteq> - 1" "snd (locate (map_v mz) 0 (- 1, - 1)) \<noteq> - 1"
    by simp_all
  from solve_small [OF assms(1) this assms(2), of elapsed] show ?thesis by blast
qed

lemma last_index_of_unique:
  assumes "last_index_of ty m k" and "last_index_of ty m k'"
  shows "k = k'"
proof (rule ccontr)
  assume "k \<noteq> k'"
  then have "k < k' \<or> k' < k" by arith
  with assms show False by (auto simp: last_index_of_def)
qed

lemma locate_last_start:
  assumes "last_index_of tile_start m ks"
  shows "fst (locate m 0 (- 1, - 1)) = int ks"
proof -
  from assms have "m ! ks \<in> set m" "type (m ! ks) = tile_start" by (simp_all add: last_index_of_def)
  then have "\<exists>t \<in> set m. type t = tile_start" by blast
  from locate_fst_last [OF this, of 0 "(- 1, - 1)"]
  obtain k where k: "fst (locate m 0 (- 1, - 1)) = int k" "last_index_of tile_start m k"
    by (auto simp: last_index_of_def)
  from last_index_of_unique [OF k(2) assms] k(1) show ?thesis by simp
qed

lemma locate_last_end:
  assumes "last_index_of tile_end m ke"
  shows "snd (locate m 0 (- 1, - 1)) = int ke"
proof -
  from assms have "m ! ke \<in> set m" "type (m ! ke) = tile_end" by (simp_all add: last_index_of_def)
  then have "\<exists>t \<in> set m. type t = tile_end" by blast
  from locate_snd_last [OF this, of 0 "(- 1, - 1)"]
  obtain k where k: "snd (locate m 0 (- 1, - 1)) = int k" "last_index_of tile_end m k"
    by (auto simp: last_index_of_def)
  from last_index_of_unique [OF k(2) assms] k(1) show ?thesis by simp
qed

lemma main_returns:
  assumes "load inp = Inr mz0" and "solve elapsed mz0 = Some r"
  shows "main inp elapsed ws \<noteq> None"
  using assms by (auto simp: main_def print_def split: sum.splits prod.splits)

lemma search_of_returns:
  assumes "grid_ok (size_v mz0) (map_v mz0)"
    and "fst (locate (map_v mz0) 0 (- 1, - 1)) \<noteq> - 1"
    and "snd (locate (map_v mz0) 0 (- 1, - 1)) \<noteq> - 1"
  shows "\<exists>mz1. search_of mz0 = Some mz1"
  using solve_search [OF assms refl refl, of 0] by blast

subsection \<open>Loading\<close>

lemma length_concat_grid:
  "length (concat (map (\<lambda>y. map (F y) [0..<w]) [0..<h])) = h * w"
  by (induction h) simp_all

lemma nth_concat_grid:
  "x < w \<Longrightarrow> y < h \<Longrightarrow> concat (map (\<lambda>y. map (F y) [0..<w]) [0..<h]) ! (y * w + x) = F y x"
proof (induction h)
  case 0
  then show ?case by simp
next
  case (Suc h)
  show ?case
  proof (cases "y < h")
    case True
    then have "Suc y * w \<le> h * w" by (intro mult_le_mono1) simp
    with Suc.prems(1) have "y * w + x < h * w" by simp
    with Suc.IH [OF Suc.prems(1) True] show ?thesis
      by (simp add: nth_append length_concat_grid)
  next
    case False
    with Suc.prems(2) have "y = h" by simp
    with Suc.prems(1) show ?thesis
      by (simp add: nth_append length_concat_grid)
  qed
qed

lemma char_to_tile_valid: "char_to_tile c \<noteq> tile_invalid \<longleftrightarrow> allowed_char c"
  unfolding char_to_tile_def allowed_char_def
  by (cases "c = CHR ''.''"; cases "c = CHR ''#''"; cases "c = CHR ''S''"; cases "c = CHR ''E''";
      simp only: if_True if_False tile_e.distinct simp_thms)

lemma read_file_Some: "read_file (Some bytes) =
    (if usable_lines bytes = [] then Inl (runtime_error ''File is empty.'') else Inr (usable_lines bytes))"
  by (simp add: read_file_def usable_lines_def Let_def)

lemma read_file_None: "read_file None = Inl (runtime_error ''Failed to open file.'')"
  by (simp add: read_file_def)

lemma grid_of_nth:
  assumes "y < length lines" "x < length (lines ! 0)"
  shows "grid_of lines ! (y * length (lines ! 0) + x) = new_tile (lines ! y ! x) x y"
  unfolding grid_of_def using nth_concat_grid [OF assms(2,1), of "\<lambda>y x. new_tile (lines ! y ! x) x y"]
  by simp

lemma grid_of_length: "length (grid_of lines) = length lines * length (lines ! 0)"
  by (simp add: grid_of_def length_concat_grid)

lemma grid_index_bound: "x < w \<Longrightarrow> y < h \<Longrightarrow> y * w + x < h * (w::nat)"
proof -
  assume "x < w" "y < h"
  then have "Suc y * w \<le> h * w" by (intro mult_le_mono1) simp
  with \<open>x < w\<close> show ?thesis by simp
qed

lemma grid_of_invalid:
  assumes "\<forall>l \<in> set lines. length l = length (lines ! 0)"
  shows "(\<exists>t \<in> set (grid_of lines). type t = tile_invalid) \<longleftrightarrow>
         (\<exists>l \<in> set lines. \<exists>c \<in> set l. \<not> allowed_char c)"
proof
  assume "\<exists>t \<in> set (grid_of lines). type t = tile_invalid"
  then obtain y x where "y < length lines" "x < length (lines ! 0)"
    "type (new_tile (lines ! y ! x) x y) = tile_invalid"
    by (auto simp: grid_of_def)
  moreover from this assms have "x < length (lines ! y)" by simp
  ultimately have "lines ! y \<in> set lines" "lines ! y ! x \<in> set (lines ! y)"
    "\<not> allowed_char (lines ! y ! x)"
    using char_to_tile_valid [of "lines ! y ! x"] by (simp_all add: new_tile_def)
  then show "\<exists>l \<in> set lines. \<exists>c \<in> set l. \<not> allowed_char c" by blast
next
  assume "\<exists>l \<in> set lines. \<exists>c \<in> set l. \<not> allowed_char c"
  then obtain l c where "l \<in> set lines" "c \<in> set l" "\<not> allowed_char c" by blast
  then obtain y x where yx: "y < length lines" "l = lines ! y" "x < length l" "c = l ! x"
    by (auto simp: in_set_conv_nth)
  with assms have x: "x < length (lines ! 0)" by simp
  have "new_tile (lines ! y ! x) x y \<in> set (grid_of lines)"
    using nth_mem [of "y * length (lines ! 0) + x" "grid_of lines"]
      grid_index_bound [OF x yx(1)] grid_of_nth [OF yx(1) x]
    by (simp add: grid_of_length)
  moreover have "type (new_tile (lines ! y ! x) x y) = tile_invalid"
    using \<open>\<not> allowed_char c\<close> yx char_to_tile_valid [of c] by (simp add: new_tile_def)
  ultimately show "\<exists>t \<in> set (grid_of lines). type t = tile_invalid" by blast
qed

lemma load_Some:
  "load (Some bytes) =
     (let lines = usable_lines bytes in
      if lines = [] then Inl (runtime_error ''File is empty.'')
      else if \<exists>l \<in> set lines. length l \<noteq> length (lines ! 0)
      then Inl (runtime_error ''Inconsistent row lengths in maze file.'')
      else if \<exists>t \<in> set (grid_of lines). type t = tile_invalid
      then Inl (invalid_argument ''Invalid character in maze file.'')
      else Inr \<lparr>size_v = \<lparr>xc = int (length (lines ! 0)), yc = int (length lines)\<rparr>,
                map_v = grid_of lines, solve_time = 0, search_count = 0, path_cost = 0\<rparr>)"
proof (cases "usable_lines bytes = []")
  case True
  then show ?thesis
    unfolding load_def read_file_Some Let_def by (simp only: simp_thms if_True sum.case)
next
  case False
  then show ?thesis
    unfolding load_def read_file_Some Let_def grid_of_def by (simp only: simp_thms if_False sum.case)
qed

lemma load_None: "load None = Inl (runtime_error ''Failed to open file.'')"
  by (simp add: load_def read_file_None)

lemma load_Inr:
  assumes "load inp = Inr mz"
  shows "\<exists>bytes. inp = Some bytes \<and> usable_lines bytes \<noteq> [] \<and>
           (\<forall>l \<in> set (usable_lines bytes). length l = length (usable_lines bytes ! 0)) \<and>
           (\<forall>l \<in> set (usable_lines bytes). \<forall>c \<in> set l. allowed_char c) \<and>
           mz = \<lparr>size_v = \<lparr>xc = int (length (usable_lines bytes ! 0)), yc = int (length (usable_lines bytes))\<rparr>,
                 map_v = grid_of (usable_lines bytes), solve_time = 0, search_count = 0, path_cost = 0\<rparr>"
proof (cases inp)
  case None
  with assms have "Inl (runtime_error ''Failed to open file.'') = Inr mz" by (simp only: load_None)
  then show ?thesis by (simp only: sum.distinct)
next
  case (Some bytes)
  let ?ls = "usable_lines bytes"
  note eq = assms [unfolded Some load_Some Let_def]
  have ne: "?ls \<noteq> []"
  proof
    assume "?ls = []"
    with eq have "Inl (runtime_error ''File is empty.'') = Inr mz" by (simp only: simp_thms if_True)
    then show False by (simp only: sum.distinct)
  qed
  have same: "\<not> (\<exists>l \<in> set ?ls. length l \<noteq> length (?ls ! 0))"
  proof
    assume a: "\<exists>l \<in> set ?ls. length l \<noteq> length (?ls ! 0)"
    from eq ne have "(if \<exists>l \<in> set ?ls. length l \<noteq> length (?ls ! 0)
      then Inl (runtime_error ''Inconsistent row lengths in maze file.'')
      else if \<exists>t \<in> set (grid_of ?ls). type t = tile_invalid
      then Inl (invalid_argument ''Invalid character in maze file.'')
      else Inr \<lparr>size_v = \<lparr>xc = int (length (?ls ! 0)), yc = int (length ?ls)\<rparr>,
                map_v = grid_of ?ls, solve_time = 0, search_count = 0, path_cost = 0\<rparr>) = Inr mz"
      by (simp only: simp_thms if_False)
    with a have "Inl (runtime_error ''Inconsistent row lengths in maze file.'') = Inr mz"
      by (simp only: simp_thms if_True)
    then show False by (simp only: sum.distinct)
  qed
  have valid: "\<not> (\<exists>t \<in> set (grid_of ?ls). type t = tile_invalid)"
  proof
    assume a: "\<exists>t \<in> set (grid_of ?ls). type t = tile_invalid"
    from eq ne same have "(if \<exists>t \<in> set (grid_of ?ls). type t = tile_invalid
      then Inl (invalid_argument ''Invalid character in maze file.'')
      else Inr \<lparr>size_v = \<lparr>xc = int (length (?ls ! 0)), yc = int (length ?ls)\<rparr>,
                map_v = grid_of ?ls, solve_time = 0, search_count = 0, path_cost = 0\<rparr>) = Inr mz"
      by (simp only: simp_thms if_False)
    with a have "Inl (invalid_argument ''Invalid character in maze file.'') = Inr mz"
      by (simp only: simp_thms if_True)
    then show False by (simp only: sum.distinct)
  qed
  note r = eq [unfolded if_not_P [OF ne] if_not_P [OF same] if_not_P [OF valid]]
  then have "\<lparr>size_v = \<lparr>xc = int (length (?ls ! 0)), yc = int (length ?ls)\<rparr>,
                map_v = grid_of ?ls, solve_time = 0, search_count = 0, path_cost = 0\<rparr> = mz"
    by (simp only: sum.inject)
  then have mz: "mz = \<lparr>size_v = \<lparr>xc = int (length (?ls ! 0)), yc = int (length ?ls)\<rparr>,
                map_v = grid_of ?ls, solve_time = 0, search_count = 0, path_cost = 0\<rparr>"
    by (rule sym)
  from same have eqlen: "\<forall>l \<in> set ?ls. length l = length (?ls ! 0)" by blast
  from valid grid_of_invalid [OF eqlen] have ok: "\<forall>l \<in> set ?ls. \<forall>c \<in> set l. allowed_char c" by blast
  from Some ne eqlen ok mz show ?thesis by blast
qed

lemma idx_nat: "idx \<lparr>xc = int w, yc = h\<rparr> (int x) (int y) = y * w + x"
  by (simp add: idx_def nat_add_distrib nat_mult_distrib)

lemma grid_ok_grid_of:
  "grid_ok \<lparr>xc = int (length (lines ! 0)), yc = int (length lines)\<rparr> (grid_of lines)"
  unfolding grid_ok_def
proof (intro allI impI)
  fix x y :: int
  let ?w = "length (lines ! 0)" and ?h = "length lines"
  assume a: "0 \<le> x \<and> x < xc \<lparr>xc = int ?w, yc = int ?h\<rparr> \<and> 0 \<le> y \<and> y < yc \<lparr>xc = int ?w, yc = int ?h\<rparr>"
  define x' y' where "x' = nat x" and "y' = nat y"
  with a have xy: "x = int x'" "y = int y'" "x' < ?w" "y' < ?h" by (simp_all add: nat_less_iff)
  have lt: "y' * ?w + x' < ?h * ?w" using xy(3,4) by (rule grid_index_bound)
  have len: "length (grid_of lines) = ?h * ?w" by (rule grid_of_length)
  show "idx \<lparr>xc = int ?w, yc = int ?h\<rparr> x y < length (grid_of lines) \<and>
        pos (grid_of lines ! idx \<lparr>xc = int ?w, yc = int ?h\<rparr> x y) = \<lparr>xc = x, yc = y\<rparr>"
    using lt len grid_of_nth [OF xy(4,3)] xy(1,2) by (simp add: idx_nat new_tile_def)
qed

lemma load_grid_ok:
  assumes "load inp = Inr mz"
  shows "grid_ok (size_v mz) (map_v mz)"
proof -
  from load_Inr [OF assms] obtain bytes where
    "mz = \<lparr>size_v = \<lparr>xc = int (length (usable_lines bytes ! 0)), yc = int (length (usable_lines bytes))\<rparr>,
          map_v = grid_of (usable_lines bytes), solve_time = 0, search_count = 0, path_cost = 0\<rparr>"
    by blast
  then show ?thesis using grid_ok_grid_of [of "usable_lines bytes"] by simp
qed

lemma load_Some_Inr:
  assumes "load (Some bytes) = Inr mz"
  shows "usable_lines bytes \<noteq> []"
    and "\<forall>l \<in> set (usable_lines bytes). length l = length (usable_lines bytes ! 0)"
    and "\<forall>l \<in> set (usable_lines bytes). \<forall>c \<in> set l. allowed_char c"
    and "mz = \<lparr>size_v = \<lparr>xc = int (length (usable_lines bytes ! 0)), yc = int (length (usable_lines bytes))\<rparr>,
               map_v = grid_of (usable_lines bytes), solve_time = 0, search_count = 0, path_cost = 0\<rparr>"
  using load_Inr [OF assms] by blast+

lemma load_accepts:
  assumes "\<not> rows_rejected (usable_lines bytes)"
  shows "load (Some bytes) = Inr \<lparr>size_v = \<lparr>xc = int (length (hd (usable_lines bytes))),
                                      yc = int (length (usable_lines bytes))\<rparr>,
                            map_v = grid_of (usable_lines bytes), solve_time = 0, search_count = 0,
                            path_cost = 0\<rparr>"
proof -
  let ?ls = "usable_lines bytes"
  from assms have "\<not> (?ls = [] \<or> (\<exists>l \<in> set ?ls. length l \<noteq> length (hd ?ls)) \<or>
      (\<exists>l \<in> set ?ls. \<exists>c \<in> set l. \<not> allowed_char c))"
    unfolding rows_rejected_def .
  then have ne: "?ls \<noteq> []"
    and same0: "\<not> (\<exists>l \<in> set ?ls. length l \<noteq> length (hd ?ls))"
    and ok: "\<not> (\<exists>l \<in> set ?ls. \<exists>c \<in> set l. \<not> allowed_char c)"
    by blast+
  from ne have hd: "hd ?ls = ?ls ! 0" by (rule hd_conv_nth)
  from same0 have same: "\<not> (\<exists>l \<in> set ?ls. length l \<noteq> length (?ls ! 0))" unfolding hd .
  then have eqlen: "\<forall>l \<in> set ?ls. length l = length (?ls ! 0)" by blast
  from ok grid_of_invalid [OF eqlen] have valid: "\<not> (\<exists>t \<in> set (grid_of ?ls). type t = tile_invalid)"
    by blast
  note r = load_Some [of bytes, unfolded Let_def if_not_P [OF ne] if_not_P [OF same] if_not_P [OF valid]]
  then show ?thesis unfolding hd .
qed

lemma load_Inr_accepts:
  assumes "load (Some bytes) = Inr mz"
  shows "\<not> rows_rejected (usable_lines bytes)"
proof -
  note b = load_Some_Inr [OF assms]
  from b(1) have hd: "hd (usable_lines bytes) = usable_lines bytes ! 0" by (rule hd_conv_nth)
  from b(1,2,3) have "\<not> (usable_lines bytes = [] \<or>
      (\<exists>l \<in> set (usable_lines bytes). length l \<noteq> length (hd (usable_lines bytes))) \<or>
      (\<exists>l \<in> set (usable_lines bytes). \<exists>c \<in> set l. \<not> allowed_char c))"
    unfolding hd by blast
  then show ?thesis unfolding rows_rejected_def .
qed

subsection \<open>The lines of a file\<close>

text \<open>\<open>getlines\<close> on a file said line by line: the lines are the rows, and what follows the last
  newline when that is not empty. Every text is such a file, in one way.\<close>

lemma getlines_row:
  "newline_free l \<Longrightarrow> getlines acc (l @ CHR 0x0A # cs) = (acc @ l) # getlines [] cs"
  by (induction l arbitrary: acc) (auto simp: newline_free_def)

lemma getlines_rest:
  "newline_free l \<Longrightarrow> getlines acc l = (if acc @ l = [] then [] else [acc @ l])"
  by (induction l arbitrary: acc) (auto simp: newline_free_def)

lemma getlines_file_of:
  assumes "\<forall>r \<in> set rows. newline_free r" and "newline_free rest"
  shows "getlines [] (file_of rows rest) = rows @ (if rest = [] then [] else [rest])"
  using assms(1)
proof (induction rows)
  case Nil
  from getlines_rest [OF assms(2), of "[]"] show ?case by (simp add: file_of_def)
next
  case (Cons r rows)
  then have r: "newline_free r" and rs: "\<forall>r \<in> set rows. newline_free r" by simp_all
  have "file_of (r # rows) rest = r @ CHR 0x0A # file_of rows rest" by (simp add: file_of_def)
  with getlines_row [OF r, of "[]" "file_of rows rest"] Cons.IH [OF rs] show ?case by simp
qed

lemma usable_lines_file_of:
  assumes "\<forall>r \<in> set rows. newline_free r" and "newline_free rest"
  shows "usable_lines (file_of rows rest) = nonblank rows rest"
  unfolding usable_lines_def nonblank_def getlines_file_of [OF assms] by simp

lemma file_of_exists:
  "\<exists>rows rest. (\<forall>r \<in> set rows. newline_free r) \<and> newline_free rest \<and> bytes = file_of rows rest"
proof (induction bytes)
  case Nil
  have "(\<forall>r \<in> set []. newline_free r) \<and> newline_free [] \<and> [] = file_of [] []"
    by (simp add: newline_free_def file_of_def)
  then show ?case by blast
next
  case (Cons c cs)
  then obtain rows rest where IH: "\<forall>r \<in> set rows. newline_free r" "newline_free rest"
    "cs = file_of rows rest" by blast
  show ?case
  proof (cases "c = CHR 0x0A")
    case True
    with IH have "(\<forall>r \<in> set ([] # rows). newline_free r) \<and> newline_free rest \<and>
        c # cs = file_of ([] # rows) rest"
      by (simp add: newline_free_def file_of_def)
    then show ?thesis by blast
  next
    case False
    show ?thesis
    proof (cases rows)
      case Nil
      with IH False have "(\<forall>r \<in> set []. newline_free r) \<and> newline_free (c # rest) \<and>
          c # cs = file_of [] (c # rest)"
        by (simp add: newline_free_def file_of_def)
      then show ?thesis by blast
    next
      case (Cons r rs)
      with IH False have "(\<forall>r \<in> set ((c # r) # rs). newline_free r) \<and> newline_free rest \<and>
          c # cs = file_of ((c # r) # rs) rest"
        by (simp add: newline_free_def file_of_def)
      then show ?thesis by blast
    qed
  qed
qed

lemma grid_of_tile:
  assumes "y < length ls" and "x < length (hd ls)" and "ls \<noteq> []"
  shows "grid_of ls ! (y * length (hd ls) + x) =
           \<lparr>type = char_to_tile (ls ! y ! x), pos = \<lparr>xc = int x, yc = int y\<rparr>,
            state = \<lparr>dir = dir_none, g_cost = 0, h_cost = 0, p_idx = 0\<rparr>\<rparr>"
proof -
  from assms(3) have hd: "hd ls = ls ! 0" by (rule hd_conv_nth)
  from grid_of_nth [OF assms(1), of x] assms(2) show ?thesis unfolding hd by (simp add: new_tile_def)
qed

subsection \<open>Rendering\<close>

lemma tile_to_char_no_flag:
  assumes "dir (state t) = dir_none \<or> plain_dir (dir (state t))"
  shows "tile_to_char t =
           (case type t of tile_empty \<Rightarrow> CHR ''.'' | tile_wall \<Rightarrow> CHR ''#''
            | tile_start \<Rightarrow> CHR ''S'' | tile_end \<Rightarrow> CHR ''E'' | tile_invalid \<Rightarrow> CHR ''?'')"
proof -
  from assms have "dir (state t) AND dir_path = 0"
    by (auto simp: plain_dir_def dir_none_def dir_n_def dir_s_def dir_e_def dir_w_def dir_path_def)
  then show ?thesis by (simp add: tile_to_char_def Let_def)
qed


lemma type_char:
  assumes "allowed_char c"
  shows "(case char_to_tile c of tile_empty \<Rightarrow> CHR ''.'' | tile_wall \<Rightarrow> CHR ''#''
            | tile_start \<Rightarrow> CHR ''S'' | tile_end \<Rightarrow> CHR ''E'' | tile_invalid \<Rightarrow> CHR ''?'') = c"
proof -
  from assms have "c = CHR ''.'' \<or> c = CHR ''#'' \<or> c = CHR ''S'' \<or> c = CHR ''E''"
    by (simp only: allowed_char_def)
  then show ?thesis
    by (elim disjE) (simp_all add: char_to_tile_def)
qed

lemma tile_to_char_plain:
  assumes "dir (state t) = dir_none \<or> plain_dir (dir (state t))"
    and "type t = char_to_tile c" and "allowed_char c"
  shows "tile_to_char t = c"
  using tile_to_char_no_flag [OF assms(1)] type_char [OF assms(3)] assms(2) by simp



lemma render_rows_idx:
  assumes "size_v mz = \<lparr>xc = int w, yc = int h\<rparr>"
  shows "render_rows mz = map (\<lambda>y. map (\<lambda>x. tile_to_char (map_v mz ! (y * w + x))) [0..<w]) [0..<h]"
  using assms by (simp add: render_rows_def idx_nat)

lemma same_grid_tile:
  assumes w: "same_grid (grid_of ls) m"
    and y: "y < length ls" and x: "x < length (ls ! 0)"
  shows "y * length (ls ! 0) + x < length m"
    and "type (m ! (y * length (ls ! 0) + x)) = char_to_tile (ls ! y ! x)"
proof -
  let ?i = "y * length (ls ! 0) + x"
  have i: "?i < length (grid_of ls)"
    using grid_index_bound [OF x y] by (simp add: grid_of_length)
  with w show "?i < length m" by (simp add: same_grid_def)
  from w i have "type (m ! ?i) = type (grid_of ls ! ?i)" by (simp add: same_grid_def)
  with grid_of_nth [OF y x] show "type (m ! ?i) = char_to_tile (ls ! y ! x)" by (simp add: new_tile_def)
qed

text \<open>Rendering with a rule for the single character: the rows come out as the lines went in.\<close>

lemma render_rows_by_char:
  assumes size: "size_v mz = \<lparr>xc = int (length (ls ! 0)), yc = int (length ls)\<rparr>"
    and len: "\<forall>l \<in> set ls. length l = length (ls ! 0)"
    and ch: "\<And>y x. y < length ls \<Longrightarrow> x < length (ls ! 0) \<Longrightarrow>
               f (tile_to_char (map_v mz ! (y * length (ls ! 0) + x))) = ls ! y ! x"
  shows "map (map f) (render_rows mz) = ls"
proof (rule nth_equalityI)
  show l: "length (map (map f) (render_rows mz)) = length ls"
    by (simp add: render_rows_idx [OF size])
  fix y assume "y < length (map (map f) (render_rows mz))"
  with l have y: "y < length ls" by simp
  then have ly: "length (ls ! y) = length (ls ! 0)" using len by simp
  have "map (\<lambda>x. f (tile_to_char (map_v mz ! (y * length (ls ! 0) + x)))) [0..<length (ls ! 0)] = ls ! y"
  proof (rule nth_equalityI)
    show "length (map (\<lambda>x. f (tile_to_char (map_v mz ! (y * length (ls ! 0) + x)))) [0..<length (ls ! 0)])
        = length (ls ! y)"
      using ly by simp
    fix x assume "x < length (map (\<lambda>x. f (tile_to_char (map_v mz ! (y * length (ls ! 0) + x)))) [0..<length (ls ! 0)])"
    then have x: "x < length (ls ! 0)" by simp
    from ch [OF y x]
    show "map (\<lambda>x. f (tile_to_char (map_v mz ! (y * length (ls ! 0) + x)))) [0..<length (ls ! 0)] ! x
        = ls ! y ! x"
      using x by simp
  qed
  then show "map (map f) (render_rows mz) ! y = ls ! y"
    using y by (simp add: render_rows_idx [OF size] comp_def)
qed


lemma render_rows_plain:
  assumes size: "size_v mz = \<lparr>xc = int (length (ls ! 0)), yc = int (length ls)\<rparr>"
    and same: "same_grid (grid_of ls) (map_v mz)"
    and un: "unmarked (map_v mz)"
    and len: "\<forall>l \<in> set ls. length l = length (ls ! 0)"
    and ok: "\<forall>l \<in> set ls. \<forall>c \<in> set l. allowed_char c"
  shows "render_rows mz = ls"
proof -
  have "map (map (\<lambda>c. c)) (render_rows mz) = ls"
    using size len
  proof (rule render_rows_by_char)
    fix y x assume y: "y < length ls" and x: "x < length (ls ! 0)"
    let ?i = "y * length (ls ! 0) + x"
    from y len have ly: "length (ls ! y) = length (ls ! 0)" by simp
    from y x ly ok have a: "allowed_char (ls ! y ! x)" by (metis nth_mem)
    note t = same_grid_tile [OF same y x]
    from t(1) have "map_v mz ! ?i \<in> set (map_v mz)" by (rule nth_mem)
    with un have "dir (state (map_v mz ! ?i)) = dir_none \<or> plain_dir (dir (state (map_v mz ! ?i)))"
      by (simp add: unmarked_def)
    then show "tile_to_char (map_v mz ! ?i) = ls ! y ! x" using t(2) a by (rule tile_to_char_plain)
  qed
  then show ?thesis by simp
qed

subsection \<open>The summary and the stopwatch\<close>

lemma show_int_minus_one: "show_int (- 1) = ''-1''"
  by (simp add: show_int_def show_nat.simps digit_def)

lemma summary_no_path:
  assumes "size_v mz = \<lparr>xc = int w, yc = int h\<rparr>" and "solve_time mz = elapsed" and "path_cost mz = - 1"
  shows "summary mz = no_path_summary w h elapsed (search_count mz)"
  using assms
  by (simp add: summary_def summary_before_time_def summary_after_time_def no_path_summary_def
      show_int_minus_one)

lemma summary_time:
  "summary (mz\<lparr>solve_time := elapsed\<rparr>) =
     summary_before_time mz @ show_int elapsed @ summary_after_time mz"
  by (simp add: summary_def summary_before_time_def summary_after_time_def)

lemma render_time: "render (mz\<lparr>solve_time := elapsed\<rparr>) = render mz"
  by (simp add: render_def render_rows_def)

lemma locate_fst_minus:
  "fst (locate m 0 (- 1, - 1)) = - 1 \<longleftrightarrow> (\<forall>t \<in> set m. type t \<noteq> tile_start)"
proof
  assume a: "fst (locate m 0 (- 1, - 1)) = - 1"
  show "\<forall>t \<in> set m. type t \<noteq> tile_start"
  proof (rule ccontr)
    assume "\<not> ?thesis"
    then have "\<exists>t \<in> set m. type t = tile_start" by blast
    from locate_fst_last [OF this, of 0 "(- 1, - 1)"] a show False by auto
  qed
next
  assume "\<forall>t \<in> set m. type t \<noteq> tile_start"
  from locate_fst_none [OF this, of 0 "(- 1, - 1)"] show "fst (locate m 0 (- 1, - 1)) = - 1" by simp
qed

lemma locate_snd_minus:
  "snd (locate m 0 (- 1, - 1)) = - 1 \<longleftrightarrow> (\<forall>t \<in> set m. type t \<noteq> tile_end)"
proof
  assume a: "snd (locate m 0 (- 1, - 1)) = - 1"
  show "\<forall>t \<in> set m. type t \<noteq> tile_end"
  proof (rule ccontr)
    assume "\<not> ?thesis"
    then have "\<exists>t \<in> set m. type t = tile_end" by blast
    from locate_snd_last [OF this, of 0 "(- 1, - 1)"] a show False by auto
  qed
next
  assume "\<forall>t \<in> set m. type t \<noteq> tile_end"
  from locate_snd_none [OF this, of 0 "(- 1, - 1)"] show "snd (locate m 0 (- 1, - 1)) = - 1" by simp
qed

subsection \<open>Runs on the example mazes\<close>

lemmas example_defs = mk_tile_def mk_maze_def dir_n_def dir_s_def dir_e_def dir_w_def dir_none_def
  dir_path_def

lemma load_SE: "load (Some ''SE\<newline>'') = Inr maze_SE"
  unfolding maze_SE_def example_defs by code_simp

lemma solve_SE: "solve 0 maze_SE = Some (Inr (maze_SE_solved, []))"
  unfolding maze_SE_def maze_SE_solved_def example_defs by code_simp

lemma load_SSE: "load (Some ''SSE\<newline>'') = Inr maze_SSE"
  unfolding maze_SSE_def example_defs by code_simp

lemma solve_SSE: "solve 0 maze_SSE = Some (Inr (maze_SSE_solved, []))"
  unfolding maze_SSE_def maze_SSE_solved_def example_defs by code_simp

lemma load_SdotE: "load (Some ''S.E\<newline>'') = Inr maze_SdotE"
  unfolding maze_SdotE_def example_defs by code_simp

lemma solve_SdotE: "solve 0 maze_SdotE = Some (Inr (maze_SdotE_solved, []))"
  unfolding maze_SdotE_def maze_SdotE_solved_def example_defs by code_simp

lemma load_SwallE: "load (Some ''S#E\<newline>'') = Inr maze_SwallE"
  unfolding maze_SwallE_def example_defs by code_simp

lemma load_two_routes: "load (Some ''E##\<newline>...\<newline>#.S\<newline>'') = Inr maze_two_routes"
  unfolding maze_two_routes_def example_defs by code_simp

lemma solve_two_routes: "solve 0 maze_two_routes = Some (Inr (maze_two_routes_solved, []))"
  unfolding maze_two_routes_def maze_two_routes_solved_def example_defs by code_simp

lemma walk_two_routes:
  "walk maze_two_routes \<lparr>xc = 2, yc = 2\<rparr> [dir_n, dir_w, dir_w, dir_n] = Some \<lparr>xc = 0, yc = 0\<rparr>"
  unfolding maze_two_routes_def example_defs by code_simp

lemma walk_cost_two_routes: "walk_cost dir_e [dir_n, dir_w, dir_w, dir_n] = 3004"
  unfolding example_defs by code_simp

lemma main_SwallE:
  "main (Some ''S#E\<newline>'') 0 write_ok =
     Some \<lparr>exit_code = 0,
           cout = ''Dimensions: 3 x 1\<newline>Solved in: 0 ms. Search count: 1\<newline>Best path cost -1 points\<newline>'',
           cerr = ''No path found to the goal.\<newline>'',
           output_file = Some ''Dimensions: 3 x 1\<newline>Solved in: 0 ms. Search count: 1\<newline>Best path cost -1 points\<newline>S#E\<newline>''\<rparr>"
  by code_simp

lemma main_SE_0:
  "main (Some ''SE\<newline>'') 0 write_ok =
     Some \<lparr>exit_code = 0,
           cout = ''Dimensions: 2 x 1\<newline>Solved in: 0 ms. Search count: 2\<newline>Best path cost 1 points\<newline>'',
           cerr = [],
           output_file = Some ''Dimensions: 2 x 1\<newline>Solved in: 0 ms. Search count: 2\<newline>Best path cost 1 points\<newline>SE\<newline>''\<rparr>"
  by code_simp

lemma main_SE_1:
  "main (Some ''SE\<newline>'') 1 write_ok =
     Some \<lparr>exit_code = 0,
           cout = ''Dimensions: 2 x 1\<newline>Solved in: 1 ms. Search count: 2\<newline>Best path cost 1 points\<newline>'',
           cerr = [],
           output_file = Some ''Dimensions: 2 x 1\<newline>Solved in: 1 ms. Search count: 2\<newline>Best path cost 1 points\<newline>SE\<newline>''\<rparr>"
  by code_simp

lemma locate_SwallE: "locate (map_v maze_SwallE) 0 (- 1, - 1) = (0, 2)"
  unfolding maze_SwallE_def example_defs by code_simp

lemma no_edge_SwallE: "(0, j) \<notin> edges (size_v maze_SwallE) (map_v maze_SwallE)"
proof
  assume "(0, j) \<in> edges (size_v maze_SwallE) (map_v maze_SwallE)"
  then obtain d where d: "d < 4"
    and e: "0 \<le> xc (ivec2_add (pos (map_v maze_SwallE ! 0)) (moves ! d))"
      "xc (ivec2_add (pos (map_v maze_SwallE ! 0)) (moves ! d)) < xc (size_v maze_SwallE)"
      "0 \<le> yc (ivec2_add (pos (map_v maze_SwallE ! 0)) (moves ! d))"
      "yc (ivec2_add (pos (map_v maze_SwallE ! 0)) (moves ! d)) < yc (size_v maze_SwallE)"
      "j = idx (size_v maze_SwallE) (xc (ivec2_add (pos (map_v maze_SwallE ! 0)) (moves ! d)))
                            (yc (ivec2_add (pos (map_v maze_SwallE ! 0)) (moves ! d)))"
      "type (map_v maze_SwallE ! j) \<noteq> tile_wall"
    unfolding edges_def by blast
  from d have "d = 0 \<or> d = 1 \<or> d = 2 \<or> d = 3" by arith
  then show False
    using e by (elim disjE) (simp_all add: maze_SwallE_def example_defs moves_def ivec2_add_def idx_def)
qed

lemma unreachable_SwallE: "(0, 2) \<notin> (edges (size_v maze_SwallE) (map_v maze_SwallE))\<^sup>*"
proof
  assume "(0, 2) \<in> (edges (size_v maze_SwallE) (map_v maze_SwallE))\<^sup>*"
  then show False
    by (rule converse_rtranclE) (simp_all add: no_edge_SwallE)
qed

text \<open>The runs on the example mazes do not depend on how the queue breaks ties.\<close>

lemma strict_two_routes: "strict_run maze_two_routes = Some True"
  unfolding maze_two_routes_def example_defs by code_simp

lemma strict_SdotE: "strict_run maze_SdotE = Some True"
  unfolding maze_SdotE_def example_defs by code_simp

lemma strict_SSE: "strict_run maze_SSE = Some True"
  unfolding maze_SSE_def example_defs by code_simp

lemma strict_SE: "strict_run maze_SE = Some True"
  unfolding maze_SE_def example_defs by code_simp

lemma strict_SwallE: "strict_run maze_SwallE = Some True"
  unfolding maze_SwallE_def example_defs by code_simp

text \<open>The file \<^verbatim>\<open>S.E\<close> in the middle of its search, and as rendered.\<close>

lemma explore_SdotE: "explore 2 0 (maze_SdotE_start, []) = (maze_SdotE_mid, [1])"
  unfolding maze_SdotE_start_def maze_SdotE_mid_def example_defs by code_simp

lemma search_SdotE:
  "search_loop 2 maze_SdotE_start (pq_push (map_v maze_SdotE_start) 0 []) =
   search_loop 2 maze_SdotE_mid [1]"
proof -
  have p: "pq_push (map_v maze_SdotE_start) 0 [] = [0]"
    unfolding maze_SdotE_start_def example_defs by code_simp
  have q: "pq_pop (map_v maze_SdotE_start) [0] = []" "pq_top [0] = 0"
    unfolding maze_SdotE_start_def example_defs by code_simp+
  show ?thesis
    unfolding p by (subst search_loop.simps) (simp add: q explore_SdotE Let_def)
qed


text \<open>Two start tiles, one of them walled off.\<close>

lemma load_SwallSE: "load (Some ''S#SE\<newline>'') = Inr maze_SwallSE"
  unfolding maze_SwallSE_def example_defs by code_simp

lemma load_SEwallS: "load (Some ''SE#S\<newline>'') = Inr maze_SEwallS"
  unfolding maze_SEwallS_def example_defs by code_simp

lemma last_SwallSE:
  "last_index_of tile_start (map_v maze_SwallSE) 2" "last_index_of tile_end (map_v maze_SwallSE) 3"
  by (simp_all add: last_index_of_def maze_SwallSE_def mk_maze_def mk_tile_def less_Suc_eq)

lemma last_SEwallS:
  "last_index_of tile_start (map_v maze_SEwallS) 3" "last_index_of tile_end (map_v maze_SEwallS) 1"
  by (simp_all add: last_index_of_def maze_SEwallS_def mk_maze_def mk_tile_def less_Suc_eq)

lemma reachable_SwallSE: "(2, 3) \<in> (edges (size_v maze_SwallSE) (map_v maze_SwallSE))\<^sup>*"
proof -
  have "neighbour (size_v maze_SwallSE) (map_v maze_SwallSE) 2 2 3"
    by (simp add: neighbour_def maze_SwallSE_def mk_maze_def mk_tile_def moves_def ivec2_add_def idx_def)
  moreover have "2 < length (map_v maze_SwallSE)" by (simp add: maze_SwallSE_def mk_maze_def)
  ultimately have "(2, 3) \<in> edges (size_v maze_SwallSE) (map_v maze_SwallSE)"
    unfolding edges_neighbour by (intro conjI exI [of _ 2]) simp_all
  then show ?thesis by (rule r_into_rtrancl)
qed

lemma no_edge_SEwallS: "(3, j) \<notin> edges (size_v maze_SEwallS) (map_v maze_SEwallS)"
proof
  assume "(3, j) \<in> edges (size_v maze_SEwallS) (map_v maze_SEwallS)"
  then obtain d where d: "d < 4" and e: "neighbour (size_v maze_SEwallS) (map_v maze_SEwallS) 3 d j"
    unfolding edges_neighbour by blast
  from d have "d = 0 \<or> d = 1 \<or> d = 2 \<or> d = 3" by arith
  then show False
    using e by (elim disjE)
      (auto simp: neighbour_def maze_SEwallS_def mk_maze_def mk_tile_def moves_def ivec2_add_def idx_def)
qed

lemma unreachable_SEwallS: "(3, 1) \<notin> (edges (size_v maze_SEwallS) (map_v maze_SEwallS))\<^sup>*"
proof
  assume "(3, 1) \<in> (edges (size_v maze_SEwallS) (map_v maze_SEwallS))\<^sup>*"
  then show False
    by (rule converse_rtranclE) (simp_all add: no_edge_SEwallS)
qed

lemma small_examples:
  "small_grid (map_v maze_SE)" "small_grid (map_v maze_SwallSE)" "small_grid (map_v maze_SEwallS)"
  by (simp_all add: small_grid_def maze_SE_def maze_SwallSE_def maze_SEwallS_def mk_maze_def)

text \<open>A file on which the frontier holds entries that the comparison does not separate and
  entries whose state a relaxation has rewritten: the tiles come out as the heap has them, and
  the run reports the cost 3006 with the search count 19.\<close>

lemma heap_order_run:
  "(case load (Some ''S#..\<newline>....\<newline>..#.\<newline>....\<newline>....\<newline>.E..\<newline>#...\<newline>'') of
      Inl e \<Rightarrow> None
    | Inr mz \<Rightarrow>
        (case solve 0 mz of
           Some (Inr (mz', err)) \<Rightarrow> Some (path_cost mz', search_count mz')
         | _ \<Rightarrow> None)) = Some (3006, 19)"
  by code_simp

section \<open>The claims\<close>

text \<open>
  C1 (the code departs from the claim). The claim: the cost \<open>solve\<close> reports is the number of
  moves plus 1000 for each change of direction along the optimal path, no cheaper sequence of
  unit moves and 90-degree turns from start to end exists, and the heuristic affects only the
  order and count of expansions, never the minimum found.

  On the file with the rows \<^verbatim>\<open>E##\<close>, \<^verbatim>\<open>...\<close>, \<^verbatim>\<open>#.S\<close> the search reports 4004. The start is tile 8 at
  \<open>(2, 2)\<close>, the end tile 0 at \<open>(0, 0)\<close>; going north, west, west, north from the start stays on
  open tiles, arrives at the end and costs 3004. The tile \<open>(1, 1)\<close> is reached first from below,
  facing north at cost 2002; the arrival from the right, facing west at the same cost 2002, is
  not strictly cheaper and is dropped, although it continues west without a turn. The run
  does not depend on how the priority queue breaks ties (\<open>strict_two_routes\<close>).
\<close>

theorem solve_reports_non_minimal_cost:
  "load (Some ''E##\<newline>...\<newline>#.S\<newline>'') = Inr maze_two_routes \<and>
   solve 0 maze_two_routes = Some (Inr (maze_two_routes_solved, [])) \<and>
   path_cost maze_two_routes_solved = 4004 \<and>
   map_v maze_two_routes ! 8 = mk_tile tile_start 2 2 dir_none 0 0 0 \<and>
   map_v maze_two_routes ! 0 = mk_tile tile_end 0 0 dir_none 0 0 0 \<and>
   walk maze_two_routes \<lparr>xc = 2, yc = 2\<rparr> [dir_n, dir_w, dir_w, dir_n] = Some \<lparr>xc = 0, yc = 0\<rparr> \<and>
   walk_cost dir_e [dir_n, dir_w, dir_w, dir_n] = 3004"
  using load_two_routes solve_two_routes walk_two_routes walk_cost_two_routes
  by (simp add: maze_two_routes_def maze_two_routes_solved_def mk_maze_def)



text \<open>
  C3 (amended). The claim says that two \<^verbatim>\<open>S\<close> characters raise the configuration error at
  solve time and that with duplicates the first occurrence is used. The scan overwrites the
  index at every hit and tests only for absence. As amended: on a loaded maze, \<open>solve\<close> throws,
  and then the configuration error, exactly when the maze has no start tile or no end tile;
  duplicates are accepted by \<open>load\<close> and by \<open>solve\<close>, and the search runs from the last start
  tile to the last end tile in scan order: when no chain of moves leads from that start tile
  to that end tile, \<open>solve\<close> reports that there is no path, whatever the other start and end
  tiles can reach, and when one does, on a grid small enough for its costs, \<open>solve\<close> finds a
  path.
\<close>

theorem solve_config_error_iff:
  assumes "load inp = Inr mz"
  shows "(solve elapsed mz = Some (Inl config_error) \<longleftrightarrow>
            (\<forall>t \<in> set (map_v mz). type t \<noteq> tile_start) \<or> (\<forall>t \<in> set (map_v mz). type t \<noteq> tile_end)) \<and>
         (\<forall>e. solve elapsed mz = Some (Inl e) \<longrightarrow> e = config_error) \<and>
         (\<forall>ks ke. last_index_of tile_start (map_v mz) ks \<and> last_index_of tile_end (map_v mz) ke \<longrightarrow>
            ((ks, ke) \<notin> (edges (size_v mz) (map_v mz))\<^sup>* \<longrightarrow>
               (\<exists>mz'. solve elapsed mz = Some (Inr (mz', no_path_msg)) \<and> path_cost mz' = - 1)) \<and>
            ((ks, ke) \<in> (edges (size_v mz) (map_v mz))\<^sup>* \<and> small_grid (map_v mz) \<longrightarrow>
               (\<exists>mz'. solve elapsed mz = Some (Inr (mz', [])) \<and> 0 < path_cost mz')))"
proof -
  let ?s = "fst (locate (map_v mz) 0 (- 1, - 1))" and ?e = "snd (locate (map_v mz) 0 (- 1, - 1))"
  note grid = load_grid_ok [OF assms]
  have a: "?s = - 1 \<or> ?e = - 1 \<Longrightarrow> solve elapsed mz = Some (Inl config_error)"
    by (rule solve_no_marker)
  have b: "\<not> (?s = - 1 \<or> ?e = - 1) \<Longrightarrow> \<forall>e. solve elapsed mz \<noteq> Some (Inl e)"
  proof -
    assume "\<not> (?s = - 1 \<or> ?e = - 1)"
    then have "?s \<noteq> - 1" "?e \<noteq> - 1" by simp_all
    from solve_search [OF grid this refl refl, of elapsed] show ?thesis
      by (auto split: if_splits option.splits)
  qed
  have 1: "solve elapsed mz = Some (Inl config_error) \<longleftrightarrow>
            (\<forall>t \<in> set (map_v mz). type t \<noteq> tile_start) \<or> (\<forall>t \<in> set (map_v mz). type t \<noteq> tile_end)"
    unfolding locate_fst_minus [symmetric] locate_snd_minus [symmetric]
    using a b by (cases "?s = - 1 \<or> ?e = - 1") auto
  have 2: "\<forall>e. solve elapsed mz = Some (Inl e) \<longrightarrow> e = config_error"
    using a b by (cases "?s = - 1 \<or> ?e = - 1") auto
  have 3: "\<forall>ks ke. last_index_of tile_start (map_v mz) ks \<and> last_index_of tile_end (map_v mz) ke \<longrightarrow>
            ((ks, ke) \<notin> (edges (size_v mz) (map_v mz))\<^sup>* \<longrightarrow>
               (\<exists>mz'. solve elapsed mz = Some (Inr (mz', no_path_msg)) \<and> path_cost mz' = - 1)) \<and>
            ((ks, ke) \<in> (edges (size_v mz) (map_v mz))\<^sup>* \<and> small_grid (map_v mz) \<longrightarrow>
               (\<exists>mz'. solve elapsed mz = Some (Inr (mz', [])) \<and> 0 < path_cost mz'))"
  proof (intro allI impI)
    fix ks ke
    assume l: "last_index_of tile_start (map_v mz) ks \<and> last_index_of tile_end (map_v mz) ke"
    then have s: "?s = int ks" and e: "?e = int ke"
      by (simp_all add: locate_last_start locate_last_end)
    then have si: "?s \<noteq> - 1" and ei: "?e \<noteq> - 1" and ns: "nat ?s = ks" and ne: "nat ?e = ke"
      by simp_all
    have un: "(ks, ke) \<notin> (edges (size_v mz) (map_v mz))\<^sup>* \<longrightarrow>
               (\<exists>mz'. solve elapsed mz = Some (Inr (mz', no_path_msg)) \<and> path_cost mz' = - 1)"
    proof
      assume "(ks, ke) \<notin> (edges (size_v mz) (map_v mz))\<^sup>*"
      then have "(nat ?s, nat ?e) \<notin> (edges (size_v mz) (map_v mz))\<^sup>*" unfolding ns ne .
      from solve_unreachable [OF grid si ei this, of elapsed]
      show "\<exists>mz'. solve elapsed mz = Some (Inr (mz', no_path_msg)) \<and> path_cost mz' = - 1" by blast
    qed
    have re: "(ks, ke) \<in> (edges (size_v mz) (map_v mz))\<^sup>* \<and> small_grid (map_v mz) \<longrightarrow>
               (\<exists>mz'. solve elapsed mz = Some (Inr (mz', [])) \<and> 0 < path_cost mz')"
    proof
      assume r: "(ks, ke) \<in> (edges (size_v mz) (map_v mz))\<^sup>* \<and> small_grid (map_v mz)"
      then have "(nat ?s, nat ?e) \<in> (edges (size_v mz) (map_v mz))\<^sup>*" unfolding ns ne by simp
      with solve_small [OF grid si ei, of elapsed] r
      show "\<exists>mz'. solve elapsed mz = Some (Inr (mz', [])) \<and> 0 < path_cost mz'" by auto
    qed
    from un re show "((ks, ke) \<notin> (edges (size_v mz) (map_v mz))\<^sup>* \<longrightarrow>
               (\<exists>mz'. solve elapsed mz = Some (Inr (mz', no_path_msg)) \<and> path_cost mz' = - 1)) \<and>
            ((ks, ke) \<in> (edges (size_v mz) (map_v mz))\<^sup>* \<and> small_grid (map_v mz) \<longrightarrow>
               (\<exists>mz'. solve elapsed mz = Some (Inr (mz', [])) \<and> 0 < path_cost mz'))" by blast
  qed
  from 1 2 3 show ?thesis by blast
qed

text \<open>The files \<^verbatim>\<open>S#SE\<close> and \<^verbatim>\<open>SE#S\<close> have two start tiles each. In the first the last start tile
  is next to the end tile and the first is walled off: a path is found. In the second the
  first start tile is next to the end tile and the last is walled off: no path is found.\<close>

theorem solve_config_error_iff_witness:
  "load (Some ''S#SE\<newline>'') = Inr maze_SwallSE \<and>
   type (map_v maze_SwallSE ! 0) = tile_start \<and>
   last_index_of tile_start (map_v maze_SwallSE) 2 \<and> last_index_of tile_end (map_v maze_SwallSE) 3 \<and>
   (2, 3) \<in> (edges (size_v maze_SwallSE) (map_v maze_SwallSE))\<^sup>* \<and> small_grid (map_v maze_SwallSE) \<and>
   solve 0 maze_SwallSE \<noteq> Some (Inl config_error) \<and>
   (\<exists>mz'. solve 0 maze_SwallSE = Some (Inr (mz', [])) \<and> 0 < path_cost mz') \<and>
   load (Some ''SE#S\<newline>'') = Inr maze_SEwallS \<and>
   type (map_v maze_SEwallS ! 0) = tile_start \<and>
   last_index_of tile_start (map_v maze_SEwallS) 3 \<and> last_index_of tile_end (map_v maze_SEwallS) 1 \<and>
   (3, 1) \<notin> (edges (size_v maze_SEwallS) (map_v maze_SEwallS))\<^sup>* \<and>
   solve 0 maze_SEwallS \<noteq> Some (Inl config_error) \<and>
   (\<exists>mz'. solve 0 maze_SEwallS = Some (Inr (mz', no_path_msg)) \<and> path_cost mz' = - 1)"
proof -
  have t: "type (map_v maze_SwallSE ! 0) = tile_start" "type (map_v maze_SEwallS ! 0) = tile_start"
    by (simp_all add: maze_SwallSE_def maze_SEwallS_def mk_maze_def mk_tile_def)
  have m: "\<not> ((\<forall>t \<in> set (map_v maze_SwallSE). type t \<noteq> tile_start) \<or>
               (\<forall>t \<in> set (map_v maze_SwallSE). type t \<noteq> tile_end))"
    "\<not> ((\<forall>t \<in> set (map_v maze_SEwallS). type t \<noteq> tile_start) \<or>
               (\<forall>t \<in> set (map_v maze_SEwallS). type t \<noteq> tile_end))"
    by (simp_all add: maze_SwallSE_def maze_SEwallS_def mk_maze_def mk_tile_def)
  note a = solve_config_error_iff [OF load_SwallSE, of 0]
  note b = solve_config_error_iff [OF load_SEwallS, of 0]
  from a m(1) have a1: "solve 0 maze_SwallSE \<noteq> Some (Inl config_error)" by blast
  from a last_SwallSE reachable_SwallSE small_examples(2)
  have a2: "\<exists>mz'. solve 0 maze_SwallSE = Some (Inr (mz', [])) \<and> 0 < path_cost mz'" by blast
  from b m(2) have b1: "solve 0 maze_SEwallS \<noteq> Some (Inl config_error)" by blast
  from b last_SEwallS unreachable_SEwallS
  have b2: "\<exists>mz'. solve 0 maze_SEwallS = Some (Inr (mz', no_path_msg)) \<and> path_cost mz' = - 1" by blast
  from t a1 a2 b1 b2 load_SwallSE load_SEwallS last_SwallSE last_SEwallS reachable_SwallSE
    unreachable_SEwallS small_examples(2)
  show ?thesis by simp
qed

text \<open>
  C3, the claim as stated fails: the file \<^verbatim>\<open>SSE\<close> has two start tiles. It loads, \<open>solve\<close> throws nothing, and the path of cost 1
  leaves from the second start tile (the parent of the end tile is tile 1).
\<close>

theorem two_starts_counterexample:
  "load (Some ''SSE\<newline>'') = Inr maze_SSE \<and>
   solve 0 maze_SSE = Some (Inr (maze_SSE_solved, [])) \<and>
   solve 0 maze_SSE \<noteq> Some (Inl config_error) \<and>
   type (map_v maze_SSE ! 0) = tile_start \<and> type (map_v maze_SSE ! 1) = tile_start \<and>
   path_cost maze_SSE_solved = 1 \<and> p_idx (state (map_v maze_SSE_solved ! 2)) = 1"
  using load_SSE solve_SSE
  by (simp add: maze_SSE_def maze_SSE_solved_def mk_maze_def mk_tile_def)

text \<open>
  C4 (the code departs from the claim). The claim: the state of the start tile is never
  overwritten after initialisation; its \<open>g_cost\<close> stays 0 and its facing stays east.

  The relaxation test \<^verbatim>\<open>neighbor.state.g_cost == 0\<close> also holds of the start tile, whose true cost
  is 0. On the file \<^verbatim>\<open>S.E\<close> the tile right of the start is expanded and relaxes the start tile:
  at the end of the run the start tile faces west and has \<open>g_cost\<close> 1002, with tile 1 as its
  parent. The run does not depend on how the priority queue breaks ties (\<open>strict_SdotE\<close>).
\<close>

theorem start_tile_overwritten:
  "load (Some ''S.E\<newline>'') = Inr maze_SdotE \<and>
   solve 0 maze_SdotE = Some (Inr (maze_SdotE_solved, [])) \<and>
   map_v maze_SdotE_solved ! 0 = mk_tile tile_start 0 0 dir_w 1002 1002 1"
  using load_SdotE solve_SdotE by (simp add: maze_SdotE_solved_def mk_maze_def)

text \<open>
  C5. For every pair of tiles \<open>a\<close> (with its facing) and \<open>b\<close>, the heuristic is the Manhattan
  distance, plus 1000 if the facing of \<open>a\<close> differs from the desired direction (east if \<open>b\<close>
  is strictly right of \<open>a\<close>, else west if strictly left, else south if strictly below, else
  north), plus another 1000 if \<open>a\<close> and \<open>b\<close> share neither coordinate.
\<close>

theorem heuristic_formula:
  "heuristic a b =
     \<bar>xc (pos a) - xc (pos b)\<bar> + \<bar>yc (pos a) - yc (pos b)\<bar>
     + (if dir (state a) \<noteq> desired_direction (pos a) (pos b) then 1000 else 0)
     + (if xc (pos a) \<noteq> xc (pos b) \<and> yc (pos a) \<noteq> yc (pos b) then 1000 else 0)"
  by (simp add: heuristic_def desired_direction_def Let_def)

theorem heuristic_formula_witness:
  "heuristic \<lparr>type = tile_empty, pos = \<lparr>xc = 1, yc = 5\<rparr>,
              state = \<lparr>dir = dir_n, g_cost = 0, h_cost = 0, p_idx = 0\<rparr>\<rparr>
             \<lparr>type = tile_end, pos = \<lparr>xc = 4, yc = 3\<rparr>,
              state = \<lparr>dir = dir_none, g_cost = 0, h_cost = 0, p_idx = 0\<rparr>\<rparr> = 2005"
  by (simp add: heuristic_formula desired_direction_def dir_n_def dir_e_def)



text \<open>
  C7 (amended). The claim says that the cost is then reported as "none". The program
  prints the value \<open>-1\<close> that \<open>path_cost\<close> holds when the end was never reached. As amended: when
  the maze loads, has a start and an end, no chain of unit moves over tiles that are not walls
  leads from the start to the end, and the output file can be written, the run exits with
  code 0, writes the diagnostic line to the error stream, prints the summary with
  \<^verbatim>\<open>Best path cost -1 points\<close>, and writes the summary followed by the rows of the input,
  without any path glyph.
\<close>

theorem no_path_outcome:
  assumes "load (Some bytes) = Inr mz0"
    and "fst (locate (map_v mz0) 0 (- 1, - 1)) \<noteq> - 1"
    and "snd (locate (map_v mz0) 0 (- 1, - 1)) \<noteq> - 1"
    and "(nat (fst (locate (map_v mz0) 0 (- 1, - 1))), nat (snd (locate (map_v mz0) 0 (- 1, - 1))))
           \<notin> (edges (size_v mz0) (map_v mz0))\<^sup>*"
  shows "\<exists>n. main (Some bytes) elapsed write_ok =
           Some \<lparr>exit_code = 0,
                 cout = no_path_summary (length (hd (usable_lines bytes))) (length (usable_lines bytes)) elapsed n,
                 cerr = no_path_msg,
                 output_file =
                   Some (no_path_summary (length (hd (usable_lines bytes))) (length (usable_lines bytes)) elapsed n
                         @ concat (map (\<lambda>line. line @ endl) (usable_lines bytes)))\<rparr>"
proof -
  let ?ls = "usable_lines bytes"
  note ne = load_Some_Inr(1) [OF assms(1)]
    and len = load_Some_Inr(2) [OF assms(1)] and ok = load_Some_Inr(3) [OF assms(1)]
    and mz0 = load_Some_Inr(4) [OF assms(1)]
  from ne have hd: "hd ?ls = ?ls ! 0" by (rule hd_conv_nth)
  from mz0 have sz0: "size_v mz0 = \<lparr>xc = int (length (?ls ! 0)), yc = int (length ?ls)\<rparr>"
    and m0: "map_v mz0 = grid_of ?ls" by simp_all
  from solve_unreachable [OF load_grid_ok [OF assms(1)] assms(2,3,4), of elapsed]
  obtain mz where mz: "size_v mz = size_v mz0" "solve_time mz = elapsed"
    "same_grid (map_v mz0) (map_v mz)"
    "solve elapsed mz0 = Some (Inr (mz, no_path_msg))" "path_cost mz = - 1" "unmarked (map_v mz)"
    by blast
  from mz(1) sz0 have size: "size_v mz = \<lparr>xc = int (length (?ls ! 0)), yc = int (length ?ls)\<rparr>" by simp
  from mz(3) m0 have w: "same_grid (grid_of ?ls) (map_v mz)"
    by simp
  have rows: "render_rows mz = ?ls" using size w mz(6) len ok by (rule render_rows_plain)
  have sm: "summary mz = no_path_summary (length (?ls ! 0)) (length ?ls) elapsed (search_count mz)"
    using size mz(2,5) by (rule summary_no_path)
  have "main (Some bytes) elapsed write_ok =
      Some \<lparr>exit_code = 0, cout = summary mz, cerr = no_path_msg,
            output_file = Some (summary mz @ render mz)\<rparr>"
    using assms(1) mz(4) by (simp add: main_def print_def write_file_def)
  then show ?thesis unfolding sm hd render_def rows by blast
qed

theorem no_path_outcome_witness:
  "load (Some ''S#E\<newline>'') = Inr maze_SwallE \<and>
   locate (map_v maze_SwallE) 0 (- 1, - 1) = (0, 2) \<and>
   (0, 2) \<notin> (edges (size_v maze_SwallE) (map_v maze_SwallE))\<^sup>* \<and>
   (\<exists>n. main (Some ''S#E\<newline>'') 7 write_ok =
           Some \<lparr>exit_code = 0,
                 cout = no_path_summary (length (hd (usable_lines ''S#E\<newline>''))) (length (usable_lines ''S#E\<newline>'')) 7 n,
                 cerr = no_path_msg,
                 output_file =
                   Some (no_path_summary (length (hd (usable_lines ''S#E\<newline>''))) (length (usable_lines ''S#E\<newline>'')) 7 n
                         @ concat (map (\<lambda>line. line @ endl) (usable_lines ''S#E\<newline>'')))\<rparr>)"
  using no_path_outcome [OF load_SwallE, of 7] load_SwallE locate_SwallE unreachable_SwallE
  by simp

text \<open>
  C7, the claim as stated fails on the file \<^verbatim>\<open>S#E\<close>: the cost line reads \<^verbatim>\<open>Best path cost -1 points\<close>.
\<close>

theorem no_path_cost_text_counterexample:
  "main (Some ''S#E\<newline>'') 0 write_ok =
     Some \<lparr>exit_code = 0,
           cout = ''Dimensions: 3 x 1\<newline>Solved in: 0 ms. Search count: 1\<newline>Best path cost -1 points\<newline>'',
           cerr = ''No path found to the goal.\<newline>'',
           output_file = Some ''Dimensions: 3 x 1\<newline>Solved in: 0 ms. Search count: 1\<newline>Best path cost -1 points\<newline>S#E\<newline>''\<rparr>"
  by (rule main_SwallE)

text \<open>
  C8. Every text is a file said line by line in one way: rows, each followed by a newline, and
  what follows the last newline. When the file cannot be opened \<open>load\<close> fails. When it can,
  the empty lines are dropped, and \<open>load\<close> fails exactly when no line is left, or a line
  differs in length from the first, or a character other than \<^verbatim>\<open>.\<close>, \<^verbatim>\<open>#\<close>, \<^verbatim>\<open>S\<close>, \<^verbatim>\<open>E\<close> occurs.
  Otherwise it succeeds with a grid as wide as the first line that is left and as high as the
  number of lines that are left, and the tile at column \<open>x\<close> of row \<open>y\<close> has the kind of the
  character at that place and the position \<open>(x, y)\<close>.
\<close>

theorem load_fails_exactly_when:
  "(\<exists>e. load None = Inl e) \<and>
   (\<exists>rows rest. (\<forall>r \<in> set rows. newline_free r) \<and> newline_free rest \<and> bytes = file_of rows rest) \<and>
   (\<forall>rows rest ls.
      (\<forall>r \<in> set rows. newline_free r) \<and> newline_free rest \<and> bytes = file_of rows rest \<and>
      ls = nonblank rows rest \<longrightarrow>
      ((\<exists>e. load (Some bytes) = Inl e) \<longleftrightarrow> rows_rejected ls) \<and>
      (\<not> rows_rejected ls \<longrightarrow>
         (\<exists>mz. load (Some bytes) = Inr mz \<and>
               size_v mz = \<lparr>xc = int (length (hd ls)), yc = int (length ls)\<rparr> \<and>
               length (map_v mz) = length ls * length (hd ls) \<and>
               (\<forall>y < length ls. \<forall>x < length (hd ls).
                  type (map_v mz ! (y * length (hd ls) + x)) = char_to_tile (ls ! y ! x) \<and>
                  pos (map_v mz ! (y * length (hd ls) + x)) = \<lparr>xc = int x, yc = int y\<rparr>))))"
proof (intro conjI allI impI)
  show "\<exists>e. load None = Inl e" by (simp add: load_None)
  show "\<exists>rows rest. (\<forall>r \<in> set rows. newline_free r) \<and> newline_free rest \<and> bytes = file_of rows rest"
    by (rule file_of_exists)
next
  fix rows rest ls
  assume a: "(\<forall>r \<in> set rows. newline_free r) \<and> newline_free rest \<and> bytes = file_of rows rest \<and>
      ls = nonblank rows rest"
  then have ls: "usable_lines bytes = ls" by (simp add: usable_lines_file_of)
  show "(\<exists>e. load (Some bytes) = Inl e) \<longleftrightarrow> rows_rejected ls"
  proof
    assume "\<exists>e. load (Some bytes) = Inl e"
    then obtain e where e: "load (Some bytes) = Inl e" ..
    show "rows_rejected ls"
    proof (rule ccontr)
      assume "\<not> rows_rejected ls"
      then have "\<not> rows_rejected (usable_lines bytes)" unfolding ls .
      from load_accepts [OF this] e show False by simp
    qed
  next
    assume r: "rows_rejected ls"
    show "\<exists>e. load (Some bytes) = Inl e"
    proof (cases "load (Some bytes)")
      case (Inl e)
      then show ?thesis by blast
    next
      case (Inr mz)
      from load_Inr_accepts [OF this] r ls show ?thesis by simp
    qed
  qed
next
  fix rows rest ls
  assume a: "(\<forall>r \<in> set rows. newline_free r) \<and> newline_free rest \<and> bytes = file_of rows rest \<and>
      ls = nonblank rows rest"
    and n: "\<not> rows_rejected ls"
  from a have ls: "usable_lines bytes = ls" by (simp add: usable_lines_file_of)
  from n have ne: "ls \<noteq> []" unfolding rows_rejected_def by blast
  then have hd: "hd ls = ls ! 0" by (rule hd_conv_nth)
  let ?mz = "\<lparr>size_v = \<lparr>xc = int (length (hd ls)), yc = int (length ls)\<rparr>,
              map_v = grid_of ls, solve_time = 0, search_count = 0, path_cost = 0\<rparr>"
  from n have "\<not> rows_rejected (usable_lines bytes)" unfolding ls .
  from load_accepts [OF this] have l: "load (Some bytes) = Inr ?mz" unfolding ls .
  have t: "\<forall>y < length ls. \<forall>x < length (hd ls).
            type (grid_of ls ! (y * length (hd ls) + x)) = char_to_tile (ls ! y ! x) \<and>
            pos (grid_of ls ! (y * length (hd ls) + x)) = \<lparr>xc = int x, yc = int y\<rparr>"
    using grid_of_tile [OF _ _ ne] by simp
  have len: "length (grid_of ls) = length ls * length (hd ls)" unfolding hd by (rule grid_of_length)
  from l t len
  show "\<exists>mz. load (Some bytes) = Inr mz \<and>
          size_v mz = \<lparr>xc = int (length (hd ls)), yc = int (length ls)\<rparr> \<and>
          length (map_v mz) = length ls * length (hd ls) \<and>
          (\<forall>y < length ls. \<forall>x < length (hd ls).
             type (map_v mz ! (y * length (hd ls) + x)) = char_to_tile (ls ! y ! x) \<and>
             pos (map_v mz ! (y * length (hd ls) + x)) = \<lparr>xc = int x, yc = int y\<rparr>)"
    by (intro exI [of _ ?mz]) simp
qed

text \<open>The file \<^verbatim>\<open>S.\<close>, empty line, \<^verbatim>\<open>#E\<close> without a final newline loads as a grid of two rows;
  the file \<^verbatim>\<open>SE\<close>, \<^verbatim>\<open>S\<close> has a short second line, and the file \<^verbatim>\<open>SE\<close>, empty line, \<^verbatim>\<open>Sx\<close> a
  character that is not allowed, after an empty line: both fail to load.\<close>

theorem load_fails_exactly_when_witness:
  "file_of [''S.'', []] ''#E'' = ''S.\<newline>\<newline>#E'' \<and>
   nonblank [''S.'', []] ''#E'' = [''S.'', ''#E''] \<and>
   (\<exists>mz. load (Some ''S.\<newline>\<newline>#E'') = Inr mz \<and> size_v mz = \<lparr>xc = 2, yc = 2\<rparr> \<and>
         length (map_v mz) = 4 \<and> type (map_v mz ! 3) = tile_end \<and>
         pos (map_v mz ! 3) = \<lparr>xc = 1, yc = 1\<rparr>) \<and>
   file_of [''SE'', ''S''] [] = ''SE\<newline>S\<newline>'' \<and>
   (\<exists>e. load (Some ''SE\<newline>S\<newline>'') = Inl e) \<and>
   file_of [''SE'', [], ''Sx''] [] = ''SE\<newline>\<newline>Sx\<newline>'' \<and>
   (\<exists>e. load (Some ''SE\<newline>\<newline>Sx\<newline>'') = Inl e)"
proof -
  have f1: "file_of [''S.'', []] ''#E'' = ''S.\<newline>\<newline>#E''"
    and f2: "file_of [''SE'', ''S''] [] = ''SE\<newline>S\<newline>''"
    and f3: "file_of [''SE'', [], ''Sx''] [] = ''SE\<newline>\<newline>Sx\<newline>''"
    by (simp_all add: file_of_def)
  have n1: "nonblank [''S.'', []] ''#E'' = [''S.'', ''#E'']"
    and n2: "nonblank [''SE'', ''S''] [] = [''SE'', ''S'']"
    and n3: "nonblank [''SE'', [], ''Sx''] [] = [''SE'', ''Sx'']"
    by (simp_all add: nonblank_def)
  have r1: "\<not> rows_rejected [''S.'', ''#E'']"
    and r2: "rows_rejected [''SE'', ''S'']"
    and r3: "rows_rejected [''SE'', ''Sx'']"
    by (simp_all add: rows_rejected_def allowed_char_def)
  have h1: "(\<forall>r \<in> set [''S.'', []]. newline_free r) \<and> newline_free ''#E'' \<and>
      ''S.\<newline>\<newline>#E'' = file_of [''S.'', []] ''#E'' \<and> [''S.'', ''#E''] = nonblank [''S.'', []] ''#E''"
    and h2: "(\<forall>r \<in> set [''SE'', ''S'']. newline_free r) \<and> newline_free [] \<and>
      ''SE\<newline>S\<newline>'' = file_of [''SE'', ''S''] [] \<and> [''SE'', ''S''] = nonblank [''SE'', ''S''] []"
    and h3: "(\<forall>r \<in> set [''SE'', [], ''Sx'']. newline_free r) \<and> newline_free [] \<and>
      ''SE\<newline>\<newline>Sx\<newline>'' = file_of [''SE'', [], ''Sx''] [] \<and>
      [''SE'', ''Sx''] = nonblank [''SE'', [], ''Sx''] []"
    unfolding f1 f2 f3 n1 n2 n3 by (simp_all add: newline_free_def)
  from load_fails_exactly_when [of "''S.\<newline>\<newline>#E''"] h1 r1
  obtain mz where mz: "load (Some ''S.\<newline>\<newline>#E'') = Inr mz"
    "size_v mz = \<lparr>xc = int (length (hd [''S.'', ''#E''])), yc = int (length [''S.'', ''#E''])\<rparr>"
    "length (map_v mz) = length [''S.'', ''#E''] * length (hd [''S.'', ''#E''])"
    "\<forall>y < length [''S.'', ''#E'']. \<forall>x < length (hd [''S.'', ''#E'']).
        type (map_v mz ! (y * length (hd [''S.'', ''#E'']) + x)) = char_to_tile ([''S.'', ''#E''] ! y ! x) \<and>
        pos (map_v mz ! (y * length (hd [''S.'', ''#E'']) + x)) = \<lparr>xc = int x, yc = int y\<rparr>"
    by blast
  from mz(4) [rule_format, of 1 1]
  have t: "type (map_v mz ! 3) = tile_end" "pos (map_v mz ! 3) = \<lparr>xc = 1, yc = 1\<rparr>"
    by (simp_all add: char_to_tile_def numeral_3_eq_3)
  from mz(1,2,3) t have 1: "\<exists>mz. load (Some ''S.\<newline>\<newline>#E'') = Inr mz \<and> size_v mz = \<lparr>xc = 2, yc = 2\<rparr> \<and>
         length (map_v mz) = 4 \<and> type (map_v mz ! 3) = tile_end \<and>
         pos (map_v mz ! 3) = \<lparr>xc = 1, yc = 1\<rparr>"
    by (intro exI [of _ mz]) simp
  from load_fails_exactly_when [of "''SE\<newline>S\<newline>''"] h2 r2
  have 2: "\<exists>e. load (Some ''SE\<newline>S\<newline>'') = Inl e" by blast
  from load_fails_exactly_when [of "''SE\<newline>\<newline>Sx\<newline>''"] h3 r3
  have 3: "\<exists>e. load (Some ''SE\<newline>\<newline>Sx\<newline>'') = Inl e" by blast
  from f1 f2 f3 n1 1 2 3 show ?thesis by simp
qed

text \<open>
  C9 (the code departs from the claim). The claim: for every loaded grid \<open>solve\<close> terminates;
  the costs are positive integers bounded below, so the search loop performs finitely many
  iterations, and when a path is found the walk along the parents reaches the start tile.

  The costs are \<open>int\<close>s. In the file of two rows and 2200000 columns whose first row has \<^verbatim>\<open>S\<close>
  in column 0, \<^verbatim>\<open>E\<close> in the last column, \<^verbatim>\<open>#\<close> in the columns 2, 6, 10, ... and \<^verbatim>\<open>.\<close> elsewhere, and
  whose second row has \<^verbatim>\<open>#\<close> in the columns 0, 4, 8, ... and \<^verbatim>\<open>.\<close> elsewhere, the only route
  turns four times in every four columns, and its cost passes 2147483647 before the end tile.
  The sum \<open>g_cost + move_cost\<close> then wraps to a negative number, which the test
  \<^verbatim>\<open>g_cost < neighbor.state.g_cost\<close> takes for a cheaper path to tiles that have their cost
  already: their parents are rewritten, the parents come to form a cycle, and the
  \<^verbatim>\<open>while (true)\<close> walk from the end tile never meets \<open>start_idx\<close>.

  What holds of the code: on every loaded maze with a start and an end tile the search loop
  ends, whatever the costs do (the variant of \<open>rank_rel\<close>), and \<open>solve\<close> returns on every loaded
  maze that is a small grid, where no cost can leave the range of an \<open>int\<close>.
\<close>

theorem solve_returns_on_small_grids:
  assumes "load inp = Inr mz"
  shows "(small_grid (map_v mz) \<longrightarrow> (\<exists>r. solve elapsed mz = Some r)) \<and>
         ((\<exists>t \<in> set (map_v mz). type t = tile_start) \<and> (\<exists>t \<in> set (map_v mz). type t = tile_end) \<longrightarrow>
            (\<exists>mz1. search_of mz = Some mz1))"
proof
  show "small_grid (map_v mz) \<longrightarrow> (\<exists>r. solve elapsed mz = Some r)"
    using solve_returns_small [OF load_grid_ok [OF assms]] by blast
  show "(\<exists>t \<in> set (map_v mz). type t = tile_start) \<and> (\<exists>t \<in> set (map_v mz). type t = tile_end) \<longrightarrow>
            (\<exists>mz1. search_of mz = Some mz1)"
  proof
    assume "(\<exists>t \<in> set (map_v mz). type t = tile_start) \<and> (\<exists>t \<in> set (map_v mz). type t = tile_end)"
    then have "fst (locate (map_v mz) 0 (- 1, - 1)) \<noteq> - 1" "snd (locate (map_v mz) 0 (- 1, - 1)) \<noteq> - 1"
      unfolding locate_fst_minus locate_snd_minus by blast+
    from search_of_returns [OF load_grid_ok [OF assms] this]
    show "\<exists>mz1. search_of mz = Some mz1" .
  qed
qed

theorem solve_returns_on_small_grids_witness:
  "load (Some ''SE\<newline>'') = Inr maze_SE \<and> small_grid (map_v maze_SE) \<and>
   (\<exists>t \<in> set (map_v maze_SE). type t = tile_start) \<and> (\<exists>t \<in> set (map_v maze_SE). type t = tile_end) \<and>
   (\<exists>r. solve 0 maze_SE = Some r) \<and> (\<exists>mz1. search_of maze_SE = Some mz1)"
proof -
  have m: "(\<exists>t \<in> set (map_v maze_SE). type t = tile_start) \<and> (\<exists>t \<in> set (map_v maze_SE). type t = tile_end)"
    by (simp add: maze_SE_def mk_maze_def mk_tile_def)
  from solve_returns_on_small_grids [OF load_SE, of 0] m small_examples(1) load_SE
  show ?thesis by blast
qed

text \<open>
  C10 (amended). The claim says that two runs on the same input give byte-identical output.
  The second summary line carries the reading of the stopwatch. As amended: for the same input
  file and the same fate of the output file, either the run does not depend on the stopwatch at
  all (it fails before printing, or it does not return), or its exit code, error stream and
  grid are fixed and its summary and output file are fixed texts around the decimal rendering
  of the elapsed milliseconds; two runs with the same reading are identical. On a small grid
  the run returns.
\<close>

theorem output_varies_only_in_solve_time:
  "((\<exists>r. \<forall>elapsed. main inp elapsed ws = r) \<or>
    (\<exists>code before after grid err. \<forall>elapsed.
       main inp elapsed ws =
         Some \<lparr>exit_code = code, cout = before @ show_int elapsed @ after, cerr = err,
               output_file = (if ws = write_ok
                              then Some (before @ show_int elapsed @ after @ grid) else None)\<rparr>)) \<and>
   ((\<forall>mz0. load inp = Inr mz0 \<longrightarrow> small_grid (map_v mz0)) \<longrightarrow>
      (\<forall>elapsed. main inp elapsed ws \<noteq> None))"
proof
  show "(\<forall>mz0. load inp = Inr mz0 \<longrightarrow> small_grid (map_v mz0)) \<longrightarrow>
      (\<forall>elapsed. main inp elapsed ws \<noteq> None)"
  proof (intro impI allI)
    fix elapsed
    assume s: "\<forall>mz0. load inp = Inr mz0 \<longrightarrow> small_grid (map_v mz0)"
    show "main inp elapsed ws \<noteq> None"
    proof (cases "load inp")
      case (Inl e)
      then show ?thesis by (simp add: main_def)
    next
      case (Inr mz0)
      with s have "small_grid (map_v mz0)" by simp
      from solve_returns_small [OF load_grid_ok [OF Inr] this, of elapsed]
      obtain r where "solve elapsed mz0 = Some r" ..
      with Inr show ?thesis by (rule main_returns)
    qed
  qed
  show "(\<exists>r. \<forall>elapsed. main inp elapsed ws = r) \<or>
    (\<exists>code before after grid err. \<forall>elapsed.
       main inp elapsed ws =
         Some \<lparr>exit_code = code, cout = before @ show_int elapsed @ after, cerr = err,
               output_file = (if ws = write_ok
                              then Some (before @ show_int elapsed @ after @ grid) else None)\<rparr>)"
  proof (cases "load inp")
    case (Inl e)
    then have "\<forall>elapsed. main inp elapsed ws =
        Some \<lparr>exit_code = 1, cout = [], cerr = error_line e, output_file = None\<rparr>"
      by (simp add: main_def)
    then show ?thesis by blast
  next
    case (Inr mz0)
    show ?thesis
    proof (cases "solve 0 mz0")
      case None
      then have "\<forall>elapsed. solve elapsed mz0 = None"
        by (subst solve_elapsed) simp
      with Inr have "\<forall>elapsed. main inp elapsed ws = None"
        by (simp add: main_def)
      then show ?thesis by blast
    next
      case (Some r)
      show ?thesis
      proof (cases r)
        case (Inl e)
        with Some have "\<forall>elapsed. solve elapsed mz0 = Some (Inl e)"
          by (subst solve_elapsed) simp
        with \<open>load inp = Inr mz0\<close> have "\<forall>elapsed. main inp elapsed ws =
          Some \<lparr>exit_code = 1, cout = [], cerr = error_line e, output_file = None\<rparr>"
          by (simp add: main_def)
        then show ?thesis by blast
      next
        case (Inr p)
        obtain mz err where p: "p = (mz, err)" by (cases p)
        from Some Inr p have s: "\<And>elapsed. solve elapsed mz0 = Some (Inr (mz\<lparr>solve_time := elapsed\<rparr>, err))"
          by (subst solve_elapsed) simp
        show ?thesis
        proof (cases ws)
          case write_ok
          with \<open>load inp = Inr mz0\<close> s have "\<forall>elapsed. main inp elapsed ws =
            Some \<lparr>exit_code = 0, cout = summary_before_time mz @ show_int elapsed @ summary_after_time mz,
                  cerr = err,
                  output_file = (if ws = write_ok
                     then Some (summary_before_time mz @ show_int elapsed @ summary_after_time mz @ render mz)
                     else None)\<rparr>"
            by (simp add: main_def print_def write_file_def summary_time render_time)
          then show ?thesis by blast
        next
          case open_fails
          with \<open>load inp = Inr mz0\<close> s have "\<forall>elapsed. main inp elapsed ws =
            Some \<lparr>exit_code = 1, cout = summary_before_time mz @ show_int elapsed @ summary_after_time mz,
                  cerr = err @ error_line (runtime_error ''Failed to open file for writing.''),
                  output_file = (if ws = write_ok
                     then Some (summary_before_time mz @ show_int elapsed @ summary_after_time mz @ render mz)
                     else None)\<rparr>"
            by (simp add: main_def print_def write_file_def summary_time render_time)
          then show ?thesis by blast
        next
          case write_fails
          with \<open>load inp = Inr mz0\<close> s have "\<forall>elapsed. main inp elapsed ws =
            Some \<lparr>exit_code = 1, cout = summary_before_time mz @ show_int elapsed @ summary_after_time mz,
                  cerr = err @ error_line (runtime_error ''Failed to write to file.''),
                  output_file = (if ws = write_ok
                     then Some (summary_before_time mz @ show_int elapsed @ summary_after_time mz @ render mz)
                     else None)\<rparr>"
            by (simp add: main_def print_def write_file_def summary_time render_time)
          then show ?thesis by blast
        qed
      qed
    qed
  qed
qed

theorem output_varies_only_in_solve_time_witness:
  "load (Some ''SE\<newline>'') = Inr maze_SE \<and> small_grid (map_v maze_SE) \<and>
   ((\<exists>r. \<forall>elapsed. main (Some ''SE\<newline>'') elapsed write_ok = r) \<or>
    (\<exists>code before after grid err. \<forall>elapsed.
       main (Some ''SE\<newline>'') elapsed write_ok =
         Some \<lparr>exit_code = code, cout = before @ show_int elapsed @ after, cerr = err,
               output_file = (if write_ok = write_ok
                              then Some (before @ show_int elapsed @ after @ grid) else None)\<rparr>)) \<and>
   (\<forall>elapsed. main (Some ''SE\<newline>'') elapsed write_ok \<noteq> None)"
proof -
  have "\<forall>mz0. load (Some ''SE\<newline>'') = Inr mz0 \<longrightarrow> small_grid (map_v mz0)"
    using load_SE small_examples(1) by simp
  with output_varies_only_in_solve_time [of "Some ''SE\<newline>''" write_ok] load_SE small_examples(1)
  show ?thesis by blast
qed

text \<open>
  C10, the claim as stated fails: two runs on the file \<^verbatim>\<open>SE\<close>, one measuring 0 ms and one 1 ms, differ.
\<close>

theorem same_input_different_output_counterexample:
  "main (Some ''SE\<newline>'') 0 write_ok \<noteq> main (Some ''SE\<newline>'') 1 write_ok"
  unfolding main_SE_0 main_SE_1 by simp

end
